theory Spec2Isabelle
  imports Main "HOL-Library.Sublist"
begin

section \<open>Strings\<close>

text \<open>
  Messages and pattern keys are JavaScript strings. They are modelled as \<^typ>\<open>string\<close>,
  that is as lists of 8-bit characters: the code units up to U+00FF. The three string
  operations the responder uses are \<open>trim\<close>, \<open>includes('\n')\<close> and \<open>split('\n')\<close>.
\<close>

text \<open>The white space and line terminators that \<open>String.prototype.trim\<close> strips, as far
  as they lie in the modelled range: TAB, LF, VT, FF, CR, SPACE and NBSP.\<close>

definition js_whitespace :: "char \<Rightarrow> bool" where
  "js_whitespace c =
     (c = CHR 0x09 \<or> c = CHR 0x0A \<or> c = CHR 0x0B \<or> c = CHR 0x0C \<or> c = CHR 0x0D
      \<or> c = CHR 0x20 \<or> c = CHR 0xA0)"

definition trim :: "string \<Rightarrow> string" where
  "trim s = rev (dropWhile js_whitespace (rev (dropWhile js_whitespace s)))"

definition newline :: char where
  "newline = CHR 0x0A"

text \<open>\<open>s.includes('\n')\<close>\<close>

definition includes_newline :: "string \<Rightarrow> bool" where
  "includes_newline s = (newline \<in> set s)"

text \<open>\<open>s.split('\n')\<close>: the pieces between the separators; the empty string splits into
  one empty piece.\<close>

fun split_newline :: "string \<Rightarrow> string list" where
  "split_newline [] = [[]]"
| "split_newline (c # cs) =
     (if c = newline then [] # split_newline cs
      else (case split_newline cs of
              [] \<Rightarrow> [[c]]
            | l # ls \<Rightarrow> (c # l) # ls))"

section \<open>Data model\<close>

text \<open>Errors that the code can raise or receive. \<open>SyntaxError p\<close> is what
  \<open>new RegExp(p)\<close> throws for an ill-formed pattern \<open>p\<close>, \<open>TypeError\<close> what a property
  access on \<open>undefined\<close> or a call of \<open>undefined\<close> throws, and \<open>Failure\<close> stands for
  any error object handed in from outside (an interpreter error event, a spawn error, an
  error reported by the graceful exit).\<close>

datatype error = SyntaxError string | TypeError string | Failure string

text \<open>Values handed to \<open>resolve\<close> are opaque to the code (\<open>unknown\<close>); \<open>None\<close> is a
  call without argument.\<close>

type_synonym jsvalue = string

text \<open>The state of a promise: single assignment, the first of \<open>resolve\<close>/\<open>reject\<close>
  wins. \<open>reject\<close> takes an optional reason of any type: \<open>None\<close> is a call without
  reason (or with \<open>undefined\<close> or \<open>null\<close>), \<open>Some\<close> any other value.\<close>

datatype settle = Pending | Fulfilled "jsvalue option" | Rejected "error option"

text \<open>
  A \<open>ResponseCallback\<close> is code of the host: the core calls it with the raw message,
  \<open>sendLogicMessage\<close>, the argument object \<open>uiArgumentMap\<close>, the array \<open>logicMessages\<close>
  itself, \<open>sendUIMessage\<close>, \<open>resolve\<close> and \<open>reject\<close>, and uses no return value. What the
  core can observe of one call is: the calls of the four hooks, in order; what the call
  has made of the two objects it was handed, the array and the argument object; and
  whether it returns or throws. A throw of \<open>sendLogicMessage\<close> (of its \<open>JSON.stringify\<close>
  or of \<open>interpreter.send\<close>) that the callback lets through is a throw of the callback.
  A callback is a function from what it reads (message, argument object, array) to such
  an observation. The table itself is taken as fixed while a message is dispatched, and
  the handle that \<open>sendLogicMessage\<close> returns is taken to be left alone.
\<close>

datatype action =
    Send string
  | NotifyUI string "string list"
  | Resolve "jsvalue option"
  | Reject "error option"

type_synonym ui_arguments = "(string \<times> jsvalue) list"

record callback_result =
  calls :: "action list"
  history :: "string list"
  arguments :: ui_arguments
  thrown :: "error option"

type_synonym callback = "string \<Rightarrow> ui_arguments \<Rightarrow> string list \<Rightarrow> callback_result"

text \<open>What the responder and the callbacks do, in the order in which it happens. The
  log is a ghost field: the code has no such list, the properties below read it.\<close>

datatype effect =
    Invoked string string
  | Sent string
  | Notified string "string list"
  | ResolveCalled "jsvalue option"
  | RejectCalled "error option"
  | Pushed string

text \<open>The mutable state shared by the communicator, the responder and the callbacks:
  the array \<open>logicMessages\<close>, the argument object \<open>uiArgumentMap\<close> and the promise
  created in \<open>run\<close>, whose \<open>resolve\<close> and \<open>reject\<close> are handed to the responder.\<close>

record rstate =
  logicMessages :: "string list"
  uiArgumentMap :: ui_arguments
  promise :: settle
  effects :: "effect list"

text \<open>The response table of a \<open>ScriptResponder\<close>, a JavaScript object: its keys in the
  order of \<open>Object.keys\<close>, each with its callback.\<close>

record responder =
  messageResponses :: "(string \<times> callback) list"

text \<open>\<open>new RegExp(p)\<close> and \<open>test\<close> belong to the JavaScript runtime, not to this
  repository: the regular-expression engine is a parameter. \<open>None\<close> is the
  \<open>SyntaxError\<close> of an ill-formed pattern, \<open>Some t\<close> the compiled expression with
  \<open>t m\<close> the result of \<open>test(m)\<close>.\<close>

type_synonym regexp_engine = "string \<Rightarrow> (string \<Rightarrow> bool) option"

section \<open>ScriptResponder\<close>

definition EXITING_MESSAGE :: string where
  "EXITING_MESSAGE = ''Exiting...''"

definition log_effect :: "effect \<Rightarrow> rstate \<Rightarrow> rstate" where
  "log_effect e s = s\<lparr>effects := effects s @ [e]\<rparr>"

text \<open>The hooks \<open>resolve\<close> and \<open>reject\<close> of the promise created in \<open>run\<close>.\<close>

definition resolve_hook :: "jsvalue option \<Rightarrow> rstate \<Rightarrow> rstate" where
  "resolve_hook v s =
     log_effect (ResolveCalled v)
       (if promise s = Pending then s\<lparr>promise := Fulfilled v\<rparr> else s)"

definition reject_hook :: "error option \<Rightarrow> rstate \<Rightarrow> rstate" where
  "reject_hook reason s =
     log_effect (RejectCalled reason)
       (if promise s = Pending then s\<lparr>promise := Rejected reason\<rparr> else s)"

fun apply_action :: "action \<Rightarrow> rstate \<Rightarrow> rstate" where
  "apply_action (Send m) s = log_effect (Sent m) s"
| "apply_action (NotifyUI channel args) s = log_effect (Notified channel args) s"
| "apply_action (Resolve v) s = resolve_hook v s"
| "apply_action (Reject reason) s = reject_hook reason s"

text \<open>A call \<open>responseCallback(message, sendLogicMessage, uiArgumentMap, logicMessages,
  sendUIMessage, resolve, reject)\<close> of the callback registered under \<open>key\<close>: it returns,
  or throws, after its hook calls and with the two objects as it has left them.\<close>

definition invoke ::
  "string \<Rightarrow> callback \<Rightarrow> string \<Rightarrow> rstate \<Rightarrow> (error \<times> rstate) + rstate" where
  "invoke key cb message s =
     (let outcome = cb message (uiArgumentMap s) (logicMessages s);
          s' = (fold apply_action (calls outcome) (log_effect (Invoked key message) s))
                 \<lparr>logicMessages := history outcome, uiArgumentMap := arguments outcome\<rparr>
      in case thrown outcome of
           None \<Rightarrow> Inr s'
         | Some e \<Rightarrow> Inl (e, s'))"

definition handleExitingMessage :: "string \<Rightarrow> rstate \<Rightarrow> bool \<times> rstate" where
  "handleExitingMessage message s =
     (if trim message = EXITING_MESSAGE then (True, resolve_hook None s)
      else (False, s))"

text \<open>The \<open>for\<close> loop of \<open>handleResponse\<close> over the remaining \<open>prompts\<close>, with the flag
  \<open>handled\<close>. A throw, of \<open>new RegExp\<close> or of a callback, leaves the loop with the state
  reached so far.\<close>

fun handleResponse_loop ::
  "regexp_engine \<Rightarrow> responder \<Rightarrow> string \<Rightarrow> string list \<Rightarrow> bool \<Rightarrow> rstate
     \<Rightarrow> (error \<times> rstate) + (bool \<times> rstate)" where
  "handleResponse_loop re r message [] handled s = Inr (handled, s)"
| "handleResponse_loop re r message (currPrompt # prompts) handled s =
     (if currPrompt \<noteq> ''_default'' then
        (case re currPrompt of
           None \<Rightarrow> Inl (SyntaxError currPrompt, s)
         | Some promptRegex \<Rightarrow>
             if promptRegex message \<or> currPrompt = trim message then
               (case map_of (messageResponses r) currPrompt of
                  None \<Rightarrow> Inl (TypeError ''responseCallback is not a function'', s)
                | Some responseCallback \<Rightarrow>
                    (case invoke currPrompt responseCallback message s of
                       Inl escaped \<Rightarrow> Inl escaped
                     | Inr s' \<Rightarrow> handleResponse_loop re r message prompts True s'))
             else handleResponse_loop re r message prompts handled s)
      else handleResponse_loop re r message prompts handled s)"

definition handleResponse ::
  "regexp_engine \<Rightarrow> responder \<Rightarrow> string \<Rightarrow> rstate \<Rightarrow> (error \<times> rstate) + (bool \<times> rstate)" where
  "handleResponse re r message s =
     handleResponse_loop re r message (map fst (messageResponses r)) False s"

definition push_message :: "string \<Rightarrow> rstate \<Rightarrow> rstate" where
  "push_message message s =
     log_effect (Pushed message) (s\<lparr>logicMessages := logicMessages s @ [message]\<rparr>)"

text \<open>The part of \<open>respondToMessage\<close> after the multi-line check: sentinel, rules,
  \<open>_default\<close>, and the push onto \<open>logicMessages\<close>.\<close>

definition respondToLine ::
  "regexp_engine \<Rightarrow> responder \<Rightarrow> string \<Rightarrow> rstate \<Rightarrow> (error \<times> rstate) + rstate" where
  "respondToLine re r message s =
     (case handleExitingMessage message s of
        (hasExited, s1) \<Rightarrow>
          if \<not> hasExited then
            (case handleResponse re r message s1 of
               Inl escaped \<Rightarrow> Inl escaped
             | Inr (usedResponse, s2) \<Rightarrow>
                 if \<not> usedResponse then
                   (case map_of (messageResponses r) ''_default'' of
                      Some default_cb \<Rightarrow>
                        (case invoke ''_default'' default_cb message s2 of
                           Inl escaped \<Rightarrow> Inl escaped
                         | Inr s3 \<Rightarrow> Inr (push_message message s3))
                    | None \<Rightarrow> Inr (push_message message s2))
                 else Inr (push_message message s2))
          else Inr (push_message message s1))"

text \<open>\<open>respondToMessage\<close> with the \<open>forEach\<close> over the lines of a multi-line message,
  which calls \<open>respondToMessage\<close> again on each line; a throw ends the \<open>forEach\<close>.\<close>

function respondToMessage ::
    "regexp_engine \<Rightarrow> responder \<Rightarrow> string \<Rightarrow> rstate \<Rightarrow> (error \<times> rstate) + rstate"
  and forEach_respond ::
    "regexp_engine \<Rightarrow> responder \<Rightarrow> string list \<Rightarrow> rstate \<Rightarrow> (error \<times> rstate) + rstate"
where
  "respondToMessage re r message s =
     (if includes_newline (trim message)
      then forEach_respond re r (split_newline (trim message)) s
      else respondToLine re r message s)"
| "forEach_respond re r [] s = Inr s"
| "forEach_respond re r (msg # msgs) s =
     (case respondToMessage re r msg s of
        Inl escaped \<Rightarrow> Inl escaped
      | Inr s' \<Rightarrow> forEach_respond re r msgs s')"
  by pat_completeness auto

text \<open>The rank of a call for the termination proof: a message whose trimmed form has a
  line break ranks above the list of its lines, none of which has one.\<close>

definition multi_rank :: "string list \<Rightarrow> nat" where
  "multi_rank msgs = (if list_ex (\<lambda>m. includes_newline (trim m)) msgs then 2 else 0)"

definition call_rank ::
  "regexp_engine \<times> responder \<times> string \<times> rstate
     + regexp_engine \<times> responder \<times> string list \<times> rstate \<Rightarrow> nat" where
  "call_rank x =
     (case x of
        Inl (re, r, message, s) \<Rightarrow> multi_rank [message]
      | Inr (re, r, msgs, s) \<Rightarrow> multi_rank msgs)"

definition call_size ::
  "regexp_engine \<times> responder \<times> string \<times> rstate
     + regexp_engine \<times> responder \<times> string list \<times> rstate \<Rightarrow> nat" where
  "call_size x =
     (case x of
        Inl (re, r, message, s) \<Rightarrow> 0
      | Inr (re, r, msgs, s) \<Rightarrow> Suc (length msgs))"

section \<open>ScriptCommunicator\<close>

text \<open>
  The interpreter handle (\<open>PythonShell\<close>, or any other \<open>InterpreterClass\<close>) is an
  external object. The communicator reads its flag \<open>terminated\<close>, calls \<open>end\<close> and
  \<open>kill\<close> on it and listens to its events; what the handle does is given from outside.
  A turn of the event loop is a list of events that the handle produces synchronously,
  one after the other (a chunk of output can emit several messages; \<open>PythonShell\<close> emits
  \<open>pythonError\<close> and sets \<open>terminated\<close> in the same turn). The promise reactions
  (\<open>.then\<close>, \<open>.catch\<close>) run when the turn is over, and read the flag as it is then.
  The calls of \<open>end\<close> and \<open>kill\<close> are taken to return, and the handle to call the
  callback passed to \<open>end\<close> at most once.
\<close>

datatype signal = EndSignal | KillSignal

text \<open>The calls of the \<open>resolve\<close> and \<open>reject\<close> passed to \<open>run\<close>, which are those of the
  promise that \<open>runScript\<close> returns.\<close>

datatype delivery = Fulfil "jsvalue option" | Refuse error

text \<open>What the synchronous part of the promise executor meets: a throw before
  \<open>interpreter\<close> is assigned (\<open>process.chdir\<close>, the constructor of the interpreter
  class), a throw afterwards (while the event handlers are attached), or none.\<close>

datatype spawn_behaviour = ThrowsBeforeHandle error | ThrowsAfterHandle error | Spawns

datatype event =
    MessageEvent string
  | ErrorEvent error
  | ExitEvent
  | EndReturned "error option"

text \<open>The state of one \<open>run\<close>. \<open>interpreter\<close> tells whether the variable of that name
  has been assigned, \<open>listening\<close> whether the event handlers are attached, \<open>terminated\<close>
  is the flag of the handle, \<open>endCallback\<close> holds the \<open>result\<close> captured by the callback
  passed to \<open>interpreter.end\<close> while that callback is waiting, and \<open>reacted\<close> tells whether
  the reaction to the promise has run. \<open>signals\<close> and \<open>outerCalls\<close> record the calls of
  \<open>end\<close>/\<open>kill\<close> and of the outer \<open>resolve\<close>/\<open>reject\<close>, \<open>uncaught\<close> the exceptions
  that escape the \<open>message\<close> handler, and \<open>unhandled\<close> the exceptions thrown by the
  \<open>.catch\<close> handler, which reject a promise that nobody observes.\<close>

record run_state =
  shared :: rstate
  interpreter :: bool
  listening :: bool
  terminated :: bool
  signals :: "signal list"
  endCallback :: "jsvalue option option"
  outerCalls :: "delivery list"
  reacted :: bool
  uncaught :: "error list"
  unhandled :: "error list"

definition initial_state :: "ui_arguments \<Rightarrow> run_state" where
  "initial_state args =
     \<lparr>shared = \<lparr>logicMessages = [], uiArgumentMap = args, promise = Pending, effects = []\<rparr>,
      interpreter = False, listening = False, terminated = False, signals = [],
      endCallback = None, outerCalls = [], reacted = False, uncaught = [], unhandled = []\<rparr>"

text \<open>The executor of the promise created in \<open>run\<close>: a throw inside it rejects the
  promise.\<close>

fun executor :: "spawn_behaviour \<Rightarrow> run_state \<Rightarrow> run_state" where
  "executor (ThrowsBeforeHandle err) s = s\<lparr>shared := reject_hook (Some err) (shared s)\<rparr>"
| "executor (ThrowsAfterHandle err) s =
     s\<lparr>interpreter := True, shared := reject_hook (Some err) (shared s)\<rparr>"
| "executor Spawns s = s\<lparr>interpreter := True, listening := True\<rparr>"

definition outer_resolve :: "jsvalue option \<Rightarrow> run_state \<Rightarrow> run_state" where
  "outer_resolve result s = s\<lparr>outerCalls := outerCalls s @ [Fulfil result]\<rparr>"

definition outer_reject :: "error \<Rightarrow> run_state \<Rightarrow> run_state" where
  "outer_reject err s = s\<lparr>outerCalls := outerCalls s @ [Refuse err]\<rparr>"

text \<open>The handler passed to \<open>.then\<close>. Reading \<open>interpreter.terminated\<close> throws when
  \<open>interpreter\<close> is still undefined.\<close>

definition onFulfilled :: "jsvalue option \<Rightarrow> run_state \<Rightarrow> error + run_state" where
  "onFulfilled result s =
     (if \<not> interpreter s
      then Inl (TypeError ''Cannot read properties of undefined (reading terminated)'')
      else if \<not> terminated s
      then Inr (s\<lparr>signals := signals s @ [EndSignal], endCallback := Some result\<rparr>)
      else Inr s)"

text \<open>The callback passed to \<open>interpreter.end\<close>, called by the handle when the graceful
  exit is over: \<open>reject(err)\<close> if there is an error, then \<open>resolve(result)\<close> in any case.\<close>

definition end_callback :: "error option \<Rightarrow> run_state \<Rightarrow> run_state" where
  "end_callback err s =
     (case endCallback s of
        None \<Rightarrow> s
      | Some result \<Rightarrow>
          outer_resolve result
            ((case err of Some e \<Rightarrow> outer_reject e | None \<Rightarrow> id) (s\<lparr>endCallback := None\<rparr>)))"

text \<open>The handler passed to \<open>.catch\<close>. Its first statement reads \<open>err.message\<close>, which
  throws when the promise was rejected without a reason; then it reads
  \<open>interpreter.terminated\<close>, kills, and calls the outer \<open>reject\<close>.\<close>

definition onRejected :: "error option \<Rightarrow> run_state \<Rightarrow> error + run_state" where
  "onRejected reason s =
     (case reason of
        None \<Rightarrow> Inl (TypeError ''Cannot read properties of undefined (reading message)'')
      | Some err \<Rightarrow>
          if \<not> interpreter s
          then Inl (TypeError ''Cannot read properties of undefined (reading terminated)'')
          else Inr (outer_reject err
                 (if \<not> terminated s then s\<lparr>signals := signals s @ [KillSignal]\<rparr> else s)))"

definition run_catch :: "error option \<Rightarrow> run_state \<Rightarrow> run_state" where
  "run_catch reason s =
     (case onRejected reason s of
        Inr s' \<Rightarrow> s'
      | Inl escaped \<Rightarrow> s\<lparr>unhandled := unhandled s @ [escaped]\<rparr>)"

text \<open>The reactions \<open>.then(...).catch(...)\<close>: they run once, when the promise is
  settled; \<open>.catch\<close> also receives what the \<open>.then\<close> handler throws.\<close>

definition react :: "run_state \<Rightarrow> run_state" where
  "react s =
     (if reacted s then s
      else (case promise (shared s) of
              Pending \<Rightarrow> s
            | Fulfilled result \<Rightarrow>
                (case onFulfilled result (s\<lparr>reacted := True\<rparr>) of
                   Inr s' \<Rightarrow> s'
                 | Inl escaped \<Rightarrow> run_catch (Some escaped) (s\<lparr>reacted := True\<rparr>))
            | Rejected reason \<Rightarrow> run_catch reason (s\<lparr>reacted := True\<rparr>)))"

text \<open>The event handlers attached in the executor: \<open>onError\<close> for \<open>error\<close> and
  \<open>pythonError\<close>, and the \<open>message\<close> handler, which calls \<open>respondToMessage\<close> and catches
  nothing. \<open>ExitEvent\<close> is the handle setting its flag \<open>terminated\<close>.\<close>

fun handle_event :: "regexp_engine \<Rightarrow> responder \<Rightarrow> event \<Rightarrow> run_state \<Rightarrow> run_state" where
  "handle_event re r (MessageEvent message) s =
     (if listening s then
        (case respondToMessage re r message (shared s) of
           Inr sh \<Rightarrow> s\<lparr>shared := sh\<rparr>
         | Inl (escaped, sh) \<Rightarrow> s\<lparr>shared := sh, uncaught := uncaught s @ [escaped]\<rparr>)
      else s)"
| "handle_event re r (ErrorEvent err) s =
     (if listening s then s\<lparr>shared := reject_hook (Some err) (shared s)\<rparr> else s)"
| "handle_event re r ExitEvent s =
     (if interpreter s then s\<lparr>terminated := True\<rparr> else s)"
| "handle_event re r (EndReturned err) s = end_callback err s"

text \<open>One turn of the event loop: its events, then the promise reactions.\<close>

definition turn :: "regexp_engine \<Rightarrow> responder \<Rightarrow> event list \<Rightarrow> run_state \<Rightarrow> run_state" where
  "turn re r events s = react (fold (handle_event re r) events s)"

text \<open>\<open>ScriptCommunicator.run\<close> with the response table \<open>r\<close> and the argument object
  \<open>args\<close>, followed by the turns of the event loop.\<close>

definition run ::
  "regexp_engine \<Rightarrow> responder \<Rightarrow> ui_arguments \<Rightarrow> spawn_behaviour \<Rightarrow> event list list
     \<Rightarrow> run_state" where
  "run re r args b turns = fold (turn re r) turns (react (executor b (initial_state args)))"

text \<open>The promise returned by \<open>runScript\<close>: the first call of its \<open>resolve\<close> or \<open>reject\<close>
  settles it, later calls do nothing.\<close>

definition outer_outcome :: "run_state \<Rightarrow> settle" where
  "outer_outcome s =
     (case outerCalls s of
        [] \<Rightarrow> Pending
      | Fulfil result # rest \<Rightarrow> Fulfilled result
      | Refuse err # rest \<Rightarrow> Rejected (Some err))"

definition runScript ::
  "regexp_engine \<Rightarrow> responder \<Rightarrow> ui_arguments \<Rightarrow> spawn_behaviour \<Rightarrow> event list list
     \<Rightarrow> settle" where
  "runScript re r args b turns = outer_outcome (run re r args b turns)"

section \<open>Observations\<close>

text \<open>The callback invocations in a log, as pairs of key and message, and the messages
  pushed onto the history.\<close>

fun invoked_calls :: "effect list \<Rightarrow> (string \<times> string) list" where
  "invoked_calls [] = []"
| "invoked_calls (Invoked key message # es) = (key, message) # invoked_calls es"
| "invoked_calls (e # es) = invoked_calls es"

definition invocations :: "rstate \<Rightarrow> (string \<times> string) list" where
  "invocations s = invoked_calls (effects s)"

fun pushed_messages :: "effect list \<Rightarrow> string list" where
  "pushed_messages [] = []"
| "pushed_messages (Pushed message # es) = message # pushed_messages es"
| "pushed_messages (e # es) = pushed_messages es"

definition pushes :: "rstate \<Rightarrow> string list" where
  "pushes s = pushed_messages (effects s)"

text \<open>The state in which a call leaves the shared data, whether it returns or throws.\<close>

fun state_of :: "(error \<times> rstate) + rstate \<Rightarrow> rstate" where
  "state_of (Inl (e, s)) = s"
| "state_of (Inr s) = s"

fun loop_state :: "(error \<times> rstate) + (bool \<times> rstate) \<Rightarrow> rstate" where
  "loop_state (Inl (e, s)) = s"
| "loop_state (Inr (h, s)) = s"

text \<open>A callback that never throws, and one that leaves the array \<open>logicMessages\<close> as it
  finds it; a table all of whose callbacks do.\<close>

definition never_throws :: "callback \<Rightarrow> bool" where
  "never_throws cb = (\<forall>m a h. thrown (cb m a h) = None)"

definition keeps_history :: "callback \<Rightarrow> bool" where
  "keeps_history cb = (\<forall>m a h. history (cb m a h) = h)"

definition callbacks_return :: "responder \<Rightarrow> bool" where
  "callbacks_return r = list_all (\<lambda>kc. never_throws (snd kc)) (messageResponses r)"

definition callbacks_keep_history :: "responder \<Rightarrow> bool" where
  "callbacks_keep_history r = list_all (\<lambda>kc. keeps_history (snd kc)) (messageResponses r)"

text \<open>A pattern key matches a message, in the words of the specification: the untrimmed
  message satisfies the key read as a regular expression, or the trimmed message equals
  the key.\<close>

definition spec_matches :: "regexp_engine \<Rightarrow> string \<Rightarrow> string \<Rightarrow> bool" where
  "spec_matches re p m = ((case re p of Some t \<Rightarrow> t m | None \<Rightarrow> False) \<or> trim m = p)"

definition matching_prompts :: "regexp_engine \<Rightarrow> string \<Rightarrow> string list \<Rightarrow> string list" where
  "matching_prompts re m ps = filter (\<lambda>p. p \<noteq> ''_default'' \<and> spec_matches re p m) ps"

text \<open>Every key other than \<open>_default\<close> is a well-formed regular expression.\<close>

definition valid_prompts :: "regexp_engine \<Rightarrow> string list \<Rightarrow> bool" where
  "valid_prompts re ps = list_all (\<lambda>p. p = ''_default'' \<or> re p \<noteq> None) ps"

definition prompts_of :: "responder \<Rightarrow> string list" where
  "prompts_of r = map fst (messageResponses r)"

text \<open>The keys whose callbacks the specification expects for a single-line message:
  none for the sentinel; otherwise all matching keys, or \<open>_default\<close> alone when none
  matches and it is registered.\<close>

definition expected_keys :: "regexp_engine \<Rightarrow> responder \<Rightarrow> string \<Rightarrow> string list" where
  "expected_keys re r m =
     (if trim m = EXITING_MESSAGE then []
      else if matching_prompts re m (prompts_of r) \<noteq> [] then matching_prompts re m (prompts_of r)
      else if ''_default'' \<in> set (prompts_of r) then [''_default'']
      else [])"

text \<open>The callback invocations expected for a list of single-line messages.\<close>

definition expected_calls ::
  "regexp_engine \<Rightarrow> responder \<Rightarrow> string list \<Rightarrow> (string \<times> string) list" where
  "expected_calls re r ls = concat (map (\<lambda>l. map (\<lambda>p. (p, l)) (expected_keys re r l)) ls)"

text \<open>The lines of a delivered message: those of the trimmed message when it has a line
  break inside, and the message as it is otherwise.\<close>

definition delivered_lines :: "string \<Rightarrow> string list" where
  "delivered_lines m = (if includes_newline (trim m) then split_newline (trim m) else [m])"

text \<open>The messages among the events of a turn, in order.\<close>

fun messages_of :: "event list \<Rightarrow> string list" where
  "messages_of [] = []"
| "messages_of (MessageEvent m # evs) = m # messages_of evs"
| "messages_of (ev # evs) = messages_of evs"

text \<open>What holds of the state of a run between two turns: the reaction has run exactly
  when the promise is settled, at most one signal has been sent, and as long as the
  promise is pending nothing has been signalled or delivered.\<close>

definition settled_inv :: "run_state \<Rightarrow> bool" where
  "settled_inv s =
     ((reacted s \<longleftrightarrow> promise (shared s) \<noteq> Pending)
      \<and> length (signals s) \<le> 1
      \<and> (promise (shared s) = Pending \<longrightarrow>
           signals s = [] \<and> outerCalls s = [] \<and> endCallback s = None
           \<and> interpreter s \<and> listening s))"

text \<open>The events in which the handle calls the callback passed to \<open>end\<close>.\<close>

fun is_end_return :: "event \<Rightarrow> bool" where
  "is_end_return (EndReturned err) = True"
| "is_end_return ev = False"

text \<open>A regular-expression engine for the closed examples. It compiles a pattern made
  of letters, digits and spaces only, which matches wherever it occurs in the message, and
  rejects every other pattern. It is used below only where it agrees with \<open>RegExp\<close>: on
  such plain patterns, and on the patterns \<open>(\<close> and \<open>C++\<close>, for which \<open>new RegExp\<close>
  throws a \<open>SyntaxError\<close>.\<close>

definition plain_chars :: string where
  "plain_chars = ''abcdefghijklmnopqrstuvwxyzABCDEFGHIJKLMNOPQRSTUVWXYZ0123456789 ''"

fun starts_with :: "string \<Rightarrow> string \<Rightarrow> bool" where
  "starts_with [] m = True"
| "starts_with (c # p) [] = False"
| "starts_with (c # p) (d # m) = (c = d \<and> starts_with p m)"

fun occurs_in :: "string \<Rightarrow> string \<Rightarrow> bool" where
  "occurs_in p [] = starts_with p []"
| "occurs_in p (d # m) = (starts_with p (d # m) \<or> occurs_in p m)"

definition plain_engine :: regexp_engine where
  "plain_engine p =
     (if list_all (\<lambda>c. c \<in> set plain_chars) p then Some (occurs_in p) else None)"

section \<open>Example inputs\<close>

definition example_state :: rstate where
  "example_state = \<lparr>logicMessages = [], uiArgumentMap = [], promise = Pending, effects = []\<rparr>"

text \<open>Callbacks: one that does nothing, one that answers the subprocess, one that
  throws after answering, and one that empties the array it is handed.\<close>

definition silent :: callback where
  "silent message args past =
     \<lparr>calls = [], history = past, arguments = args, thrown = None\<rparr>"

definition reply :: callback where
  "reply message args past =
     \<lparr>calls = [Send ''ok''], history = past, arguments = args, thrown = None\<rparr>"

definition thrower :: callback where
  "thrower message args past =
     \<lparr>calls = [Send ''ok''], history = past, arguments = args, thrown = Some (Failure ''boom'')\<rparr>"

definition eraser :: callback where
  "eraser message args past =
     \<lparr>calls = [], history = [], arguments = args, thrown = None\<rparr>"

definition example_responder :: responder where
  "example_responder =
     \<lparr>messageResponses = [(''READY'', reply), (''EADY'', silent), (''_default'', silent)]\<rparr>"

definition broken_responder :: responder where
  "broken_responder =
     \<lparr>messageResponses =
        [(''READY'', reply), (''('', silent), (''foo'', reply), (''_default'', silent)]\<rparr>"

definition literal_responder :: responder where
  "literal_responder = \<lparr>messageResponses = [(''C++'', reply)]\<rparr>"

definition default_responder :: responder where
  "default_responder = \<lparr>messageResponses = [(''_default'', reply)]\<rparr>"

definition throwing_responder :: responder where
  "throwing_responder = \<lparr>messageResponses = [(''foo'', thrower), (''oo'', reply)]\<rparr>"

definition throwing_default_responder :: responder where
  "throwing_default_responder = \<lparr>messageResponses = [(''_default'', thrower)]\<rparr>"

definition erasing_responder :: responder where
  "erasing_responder = \<lparr>messageResponses = [(''_default'', eraser)]\<rparr>"

definition two_lines :: string where
  "two_lines = ''foo'' @ [newline] @ ''bar''"

definition line_and_sentinel :: string where
  "line_and_sentinel = ''foo'' @ [newline] @ ''Exiting...''"

definition listening_state :: run_state where
  "listening_state = executor Spawns (initial_state [])"

section \<open>Termination of \<open>respondToMessage\<close>\<close>

lemma set_trim_subset: "set (trim s) \<subseteq> set s"
proof
  fix x
  assume "x \<in> set (trim s)"
  then have "x \<in> set (dropWhile js_whitespace (rev (dropWhile js_whitespace s)))"
    by (simp add: trim_def)
  then have "x \<in> set (rev (dropWhile js_whitespace s))"
    by (rule set_dropWhileD)
  then have "x \<in> set (dropWhile js_whitespace s)"
    by simp
  then show "x \<in> set s"
    by (rule set_dropWhileD)
qed

lemma split_newline_no_newline: "l \<in> set (split_newline s) \<Longrightarrow> newline \<notin> set l"
proof (induction s arbitrary: l)
  case Nil
  then show ?case by simp
next
  case (Cons c cs)
  then show ?case
    by (cases "split_newline cs") (auto split: if_splits)
qed

lemma split_line_single: "l \<in> set (split_newline s) \<Longrightarrow> \<not> includes_newline (trim l)"
  using split_newline_no_newline set_trim_subset
  unfolding includes_newline_def by blast

lemma split_rank: "multi_rank (split_newline (trim message)) = 0"
  using split_line_single by (auto simp: multi_rank_def list_ex_iff)

termination respondToMessage
proof (relation "measures [call_rank, call_size]")
  show "wf (measures [call_rank, call_size])"
    by (rule wf_measures)
next
  fix re :: regexp_engine and r :: responder and message :: string and s :: rstate
  assume "includes_newline (trim message)"
  then have "call_rank (Inr (re, r, split_newline (trim message), s))
      < call_rank (Inl (re, r, message, s))"
    by (simp add: call_rank_def split_rank) (simp add: multi_rank_def)
  then show "(Inr (re, r, split_newline (trim message), s), Inl (re, r, message, s))
      \<in> measures [call_rank, call_size]"
    by simp
next
  fix re :: regexp_engine and r :: responder and msg :: string and msgs :: "string list"
    and s :: rstate
  have "call_rank (Inl (re, r, msg, s)) \<le> call_rank (Inr (re, r, msg # msgs, s))"
    by (simp add: call_rank_def multi_rank_def)
  moreover have "call_size (Inl (re, r, msg, s)) < call_size (Inr (re, r, msg # msgs, s))"
    by (simp add: call_size_def)
  ultimately show "(Inl (re, r, msg, s), Inr (re, r, msg # msgs, s))
      \<in> measures [call_rank, call_size]"
    by auto
next
  fix re :: regexp_engine and r :: responder and msg :: string and msgs :: "string list"
    and s s' :: rstate
  have "call_rank (Inr (re, r, msgs, s')) \<le> call_rank (Inr (re, r, msg # msgs, s))"
    by (simp add: call_rank_def multi_rank_def)
  moreover have "call_size (Inr (re, r, msgs, s')) < call_size (Inr (re, r, msg # msgs, s))"
    by (simp add: call_size_def)
  ultimately show "(Inr (re, r, msgs, s'), Inr (re, r, msg # msgs, s))
      \<in> measures [call_rank, call_size]"
    by auto
qed

declare respondToMessage.simps [simp del]

section \<open>What the hooks, the callbacks and the rule loop leave unchanged\<close>

lemma invoked_calls_append: "invoked_calls (xs @ ys) = invoked_calls xs @ invoked_calls ys"
  by (induction xs rule: invoked_calls.induct) simp_all

lemma pushed_messages_append:
  "pushed_messages (xs @ ys) = pushed_messages xs @ pushed_messages ys"
  by (induction xs rule: pushed_messages.induct) simp_all

lemma log_effect_frame:
  "invocations (log_effect e s) = invocations s @ invoked_calls [e]"
  "pushes (log_effect e s) = pushes s @ pushed_messages [e]"
  "logicMessages (log_effect e s) = logicMessages s"
  "uiArgumentMap (log_effect e s) = uiArgumentMap s"
  "promise (log_effect e s) = promise s"
  by (simp_all add: invocations_def pushes_def log_effect_def invoked_calls_append
      pushed_messages_append)

lemma resolve_hook_frame:
  "logicMessages (resolve_hook v s) = logicMessages s"
  "invocations (resolve_hook v s) = invocations s"
  "pushes (resolve_hook v s) = pushes s"
  "promise (resolve_hook v s) = (if promise s = Pending then Fulfilled v else promise s)"
  "effects (resolve_hook v s) = effects s @ [ResolveCalled v]"
  by (simp_all add: resolve_hook_def log_effect_def invocations_def pushes_def
      invoked_calls_append pushed_messages_append)

lemma reject_hook_frame:
  "logicMessages (reject_hook e s) = logicMessages s"
  "invocations (reject_hook e s) = invocations s"
  "pushes (reject_hook e s) = pushes s"
  "promise (reject_hook e s) = (if promise s = Pending then Rejected e else promise s)"
  "effects (reject_hook e s) = effects s @ [RejectCalled e]"
  by (simp_all add: reject_hook_def log_effect_def invocations_def pushes_def
      invoked_calls_append pushed_messages_append)

lemma push_message_frame:
  "logicMessages (push_message m s) = logicMessages s @ [m]"
  "invocations (push_message m s) = invocations s"
  "pushes (push_message m s) = pushes s @ [m]"
  "promise (push_message m s) = promise s"
  "effects (push_message m s) = effects s @ [Pushed m]"
  by (simp_all add: push_message_def log_effect_def invocations_def pushes_def
      invoked_calls_append pushed_messages_append)

lemma apply_action_frame:
  "invocations (apply_action a s) = invocations s"
  "pushes (apply_action a s) = pushes s"
  "promise s \<noteq> Pending \<Longrightarrow> promise (apply_action a s) = promise s"
  by (cases a; simp add: log_effect_frame resolve_hook_frame reject_hook_frame)+

lemma fold_action_frame:
  "invocations (fold apply_action as s) = invocations s"
  "pushes (fold apply_action as s) = pushes s"
  "promise s \<noteq> Pending \<Longrightarrow> promise (fold apply_action as s) = promise s"
proof (induction as arbitrary: s)
  case Nil
  { case 1 show ?case by simp }
  { case 2 show ?case by simp }
  { case 3 show ?case by simp }
next
  case (Cons a as)
  { case 1 show ?case by (simp add: Cons.IH(1) apply_action_frame(1)) }
  { case 2 show ?case by (simp add: Cons.IH(2) apply_action_frame(2)) }
  { case 3 then show ?case by (simp add: Cons.IH(3) apply_action_frame(3)) }
qed

lemma invocations_update [simp]:
  "invocations (s\<lparr>logicMessages := h, uiArgumentMap := a\<rparr>) = invocations s"
  "pushes (s\<lparr>logicMessages := h, uiArgumentMap := a\<rparr>) = pushes s"
  by (simp_all add: invocations_def pushes_def)

lemma invoke_frame:
  "invocations (state_of (invoke key cb m s)) = invocations s @ [(key, m)]"
  "pushes (state_of (invoke key cb m s)) = pushes s"
  "promise s \<noteq> Pending \<Longrightarrow> promise (state_of (invoke key cb m s)) = promise s"
  "keeps_history cb \<Longrightarrow> logicMessages (state_of (invoke key cb m s)) = logicMessages s"
  by (simp_all add: invoke_def Let_def fold_action_frame log_effect_frame keeps_history_def
      split: option.splits)

lemma invoke_never_throws:
  "never_throws cb \<Longrightarrow> \<exists>s'. invoke key cb m s = Inr s'"
  by (simp add: invoke_def Let_def never_throws_def)

lemma table_callback:
  "map_of (messageResponses r) p = Some cb \<Longrightarrow> (p, cb) \<in> set (messageResponses r)"
  by (rule map_of_SomeD)

lemma table_keeps:
  "callbacks_keep_history r \<Longrightarrow> map_of (messageResponses r) p = Some cb \<Longrightarrow> keeps_history cb"
proof -
  assume "callbacks_keep_history r" and "map_of (messageResponses r) p = Some cb"
  then have "\<forall>kc\<in>set (messageResponses r). keeps_history (snd kc)"
    and "(p, cb) \<in> set (messageResponses r)"
    by (simp_all add: callbacks_keep_history_def list_all_iff table_callback)
  then show "keeps_history cb" by force
qed

lemma table_returns:
  "callbacks_return r \<Longrightarrow> map_of (messageResponses r) p = Some cb \<Longrightarrow> never_throws cb"
proof -
  assume "callbacks_return r" and "map_of (messageResponses r) p = Some cb"
  then have "\<forall>kc\<in>set (messageResponses r). never_throws (snd kc)"
    and "(p, cb) \<in> set (messageResponses r)"
    by (simp_all add: callbacks_return_def list_all_iff table_callback)
  then show "never_throws cb" by force
qed

lemma loop_frame:
  "pushes (loop_state (handleResponse_loop re r m ps h s)) = pushes s"
  "promise s \<noteq> Pending \<Longrightarrow> promise (loop_state (handleResponse_loop re r m ps h s)) = promise s"
proof (induction ps arbitrary: h s)
  case Nil
  { case 1 show ?case by simp }
  { case 2 show ?case by simp }
next
  case (Cons p ps)
  { case 1 show ?case
    proof (cases "p \<noteq> ''_default'' \<and> (\<exists>t cb. re p = Some t \<and> (t m \<or> p = trim m)
        \<and> map_of (messageResponses r) p = Some cb)")
      case True
      then obtain t cb where t: "re p = Some t" "t m \<or> p = trim m"
        "map_of (messageResponses r) p = Some cb" "p \<noteq> ''_default''" by blast
      show ?thesis
      proof (cases "invoke p cb m s")
        case (Inl x)
        then show ?thesis
          using t invoke_frame(2) [of p cb m s] by (cases x) auto
      next
        case (Inr s1)
        then show ?thesis
          using t invoke_frame(2) [of p cb m s] Cons.IH(1) [where s = s1 and h = True]
          by auto
      qed
    next
      case False
      then show ?thesis
        using Cons.IH(1) [where s = s and h = h] by (auto split: option.splits)
    qed }
  { case 2
    show ?case
    proof (cases "p \<noteq> ''_default'' \<and> (\<exists>t cb. re p = Some t \<and> (t m \<or> p = trim m)
        \<and> map_of (messageResponses r) p = Some cb)")
      case True
      then obtain t cb where t: "re p = Some t" "t m \<or> p = trim m"
        "map_of (messageResponses r) p = Some cb" "p \<noteq> ''_default''" by blast
      show ?thesis
      proof (cases "invoke p cb m s")
        case (Inl x)
        then show ?thesis
          using t invoke_frame(3) [OF 2, of p cb m] by (cases x) auto
      next
        case (Inr s1)
        then have "promise s1 = promise s"
          using invoke_frame(3) [OF 2, of p cb m] by simp
        then show ?thesis
          using t Inr 2 Cons.IH(2) [where s = s1 and h = True] by auto
      qed
    next
      case False
      then show ?thesis
        using Cons.IH(2) [where s = s and h = h] 2 by (auto split: option.splits)
    qed }
qed

lemma loop_keeps:
  assumes "callbacks_keep_history r"
  shows "logicMessages (loop_state (handleResponse_loop re r m ps h s)) = logicMessages s"
proof (induction ps arbitrary: h s)
  case Nil
  show ?case by simp
next
  case (Cons p ps)
  show ?case
  proof (cases "p \<noteq> ''_default'' \<and> (\<exists>t cb. re p = Some t \<and> (t m \<or> p = trim m)
      \<and> map_of (messageResponses r) p = Some cb)")
    case True
    then obtain t cb where t: "re p = Some t" "t m \<or> p = trim m"
      "map_of (messageResponses r) p = Some cb" "p \<noteq> ''_default''" by blast
    have keep: "logicMessages (state_of (invoke p cb m s)) = logicMessages s"
      using table_keeps [OF assms t(3)] by (rule invoke_frame(4))
    show ?thesis
    proof (cases "invoke p cb m s")
      case (Inl x)
      then show ?thesis
        using t keep by (cases x) auto
    next
      case (Inr s1)
      then show ?thesis
        using t keep Cons.IH [where s = s1 and h = True] by auto
    qed
  next
    case False
    then show ?thesis
      using Cons.IH [where s = s and h = h] by (auto split: option.splits)
  qed
qed

lemma loop_append:
  "handleResponse_loop re r m (ps @ qs) h s =
     (case handleResponse_loop re r m ps h s of
        Inl escaped \<Rightarrow> Inl escaped
      | Inr (h', s') \<Rightarrow> handleResponse_loop re r m qs h' s')"
  by (induction ps arbitrary: h s) (simp_all split: option.splits sum.splits)

lemma loop_returns:
  assumes "handleResponse_loop re r m ps h s = Inr (h', s')"
  shows "h' = (h \<or> matching_prompts re m ps \<noteq> [])
      \<and> invocations s' = invocations s @ map (\<lambda>p. (p, m)) (matching_prompts re m ps)"
  using assms
proof (induction ps arbitrary: h s)
  case Nil
  then show ?case by (simp add: matching_prompts_def)
next
  case (Cons p ps)
  show ?case
  proof (cases "p = ''_default''")
    case True
    then show ?thesis
      using Cons.IH [where h = h and s = s] Cons.prems by (simp add: matching_prompts_def)
  next
    case False
    then obtain t where t: "re p = Some t"
      using Cons.prems by (cases "re p") auto
    show ?thesis
    proof (cases "t m \<or> p = trim m")
      case True
      then have sm: "spec_matches re p m"
        using t by (auto simp: spec_matches_def)
      obtain cb where cb: "map_of (messageResponses r) p = Some cb"
        using Cons.prems False t True by (cases "map_of (messageResponses r) p") auto
      obtain s1 where s1: "invoke p cb m s = Inr s1"
        using Cons.prems False t True cb by (cases "invoke p cb m s") auto
      then have inv1: "invocations s1 = invocations s @ [(p, m)]"
        using invoke_frame(1) [of p cb m s] by simp
      have "handleResponse_loop re r m ps True s1 = Inr (h', s')"
        using Cons.prems False t True cb s1 by auto
      from Cons.IH [OF this] show ?thesis
        using False sm inv1 by (simp add: matching_prompts_def)
    next
      case no: False
      then have sm: "\<not> spec_matches re p m"
        using t by (auto simp: spec_matches_def)
      have "handleResponse_loop re r m ps h s = Inr (h', s')"
        using Cons.prems False t no by auto
      from Cons.IH [OF this] show ?thesis
        using False sm by (simp add: matching_prompts_def)
    qed
  qed
qed

lemma loop_completes:
  assumes "valid_prompts re ps" and "set ps \<subseteq> fst ` set (messageResponses r)"
    and "callbacks_return r"
  shows "\<exists>h' s'. handleResponse_loop re r m ps h s = Inr (h', s')"
  using assms(1,2)
proof (induction ps arbitrary: h s)
  case Nil
  then show ?case by simp
next
  case (Cons p ps)
  have valid: "valid_prompts re ps" and sub: "set ps \<subseteq> fst ` set (messageResponses r)"
    using Cons.prems by (simp_all add: valid_prompts_def)
  show ?case
  proof (cases "p = ''_default''")
    case True
    then show ?thesis
      using Cons.IH [OF valid sub, where h = h and s = s] by simp
  next
    case False
    then obtain t where t: "re p = Some t"
      using Cons.prems(1) by (auto simp: valid_prompts_def)
    obtain cb where cb: "map_of (messageResponses r) p = Some cb"
      using Cons.prems(2) by (cases "map_of (messageResponses r) p")
        (auto simp: map_of_eq_None_iff)
    obtain s1 where s1: "invoke p cb m s = Inr s1"
      using invoke_never_throws [OF table_returns [OF assms(3) cb]] by blast
    show ?thesis
      using False t cb s1 Cons.IH [OF valid sub, where h = True and s = s1]
        Cons.IH [OF valid sub, where h = h and s = s]
      by auto
  qed
qed

lemma loop_fired:
  "\<exists>n. invocations (loop_state (handleResponse_loop re r m ps h s))
      = invocations s @ map (\<lambda>p. (p, m)) (take n (matching_prompts re m ps))"
proof (induction ps arbitrary: h s)
  case Nil
  show ?case by simp
next
  case (Cons p ps)
  show ?case
  proof (cases "p = ''_default''")
    case True
    then show ?thesis
      using Cons.IH [where h = h and s = s] by (simp add: matching_prompts_def)
  next
    case False
    show ?thesis
    proof (cases "re p")
      case None
      then have "invocations (loop_state (handleResponse_loop re r m (p # ps) h s))
          = invocations s @ map (\<lambda>p. (p, m)) (take 0 (matching_prompts re m (p # ps)))"
        using False by simp
      then show ?thesis by blast
    next
      case (Some t)
      show ?thesis
      proof (cases "t m \<or> p = trim m")
        case no: False
        then have sm: "\<not> spec_matches re p m"
          using Some by (auto simp: spec_matches_def)
        then show ?thesis
          using Cons.IH [where h = h and s = s] False Some no
          by (simp add: matching_prompts_def)
      next
        case True
        then have sm: "spec_matches re p m"
          using Some by (auto simp: spec_matches_def)
        then have mp: "matching_prompts re m (p # ps) = p # matching_prompts re m ps"
          using False by (simp add: matching_prompts_def)
        show ?thesis
        proof (cases "map_of (messageResponses r) p")
          case None
          then have "invocations (loop_state (handleResponse_loop re r m (p # ps) h s))
              = invocations s @ map (\<lambda>p. (p, m)) (take 0 (matching_prompts re m (p # ps)))"
            using False Some True by auto
          then show ?thesis by blast
        next
          case cb: (Some cb)
          have inv1: "invocations (state_of (invoke p cb m s)) = invocations s @ [(p, m)]"
            by (rule invoke_frame(1))
          show ?thesis
          proof (cases "invoke p cb m s")
            case (Inl x)
            then have "invocations (loop_state (handleResponse_loop re r m (p # ps) h s))
                = invocations s @ map (\<lambda>p. (p, m)) (take 1 (matching_prompts re m (p # ps)))"
              using False Some True cb inv1 mp by (cases x) auto
            then show ?thesis by blast
          next
            case (Inr s1)
            from Cons.IH [where h = True and s = s1]
            obtain n where "invocations (loop_state (handleResponse_loop re r m ps True s1))
                = invocations s1 @ map (\<lambda>p. (p, m)) (take n (matching_prompts re m ps))"
              by blast
            then have "invocations (loop_state (handleResponse_loop re r m (p # ps) h s))
                = invocations s
                  @ map (\<lambda>p. (p, m)) (take (Suc n) (matching_prompts re m (p # ps)))"
              using False Some True cb inv1 mp Inr by auto
            then show ?thesis by blast
          qed
        qed
      qed
    qed
  qed
qed

section \<open>Dispatch of one message\<close>

lemma respondToMessage_single:
  "\<not> includes_newline (trim m) \<Longrightarrow> respondToMessage re r m s = respondToLine re r m s"
  by (simp add: respondToMessage.simps)

lemma respondToMessage_multi:
  "includes_newline (trim m) \<Longrightarrow>
     respondToMessage re r m s = forEach_respond re r (split_newline (trim m)) s"
  by (simp add: respondToMessage.simps)

lemma sentinel_single: "trim m = EXITING_MESSAGE \<Longrightarrow> \<not> includes_newline (trim m)"
  by (simp add: EXITING_MESSAGE_def includes_newline_def newline_def)

lemma respondToLine_sentinel:
  "trim m = EXITING_MESSAGE \<Longrightarrow>
     respondToLine re r m s = Inr (push_message m (resolve_hook None s))"
  by (simp add: respondToLine_def handleExitingMessage_def)

lemma default_registered:
  "''_default'' \<in> set (prompts_of r) \<longleftrightarrow> map_of (messageResponses r) ''_default'' \<noteq> None"
  by (simp add: prompts_of_def map_of_eq_None_iff)

text \<open>The ways in which the dispatch of a line that is not the sentinel ends.\<close>

lemma respondToLine_cases:
  assumes "trim m \<noteq> EXITING_MESSAGE"
  obtains (loop_throws) e s1 where "handleResponse re r m s = Inl (e, s1)"
      and "respondToLine re r m s = Inl (e, s1)"
    | (default_throws) s1 d e s2 where "handleResponse re r m s = Inr (False, s1)"
      and "map_of (messageResponses r) ''_default'' = Some d"
      and "invoke ''_default'' d m s1 = Inl (e, s2)"
      and "respondToLine re r m s = Inl (e, s2)"
    | (default_returns) s1 d s2 where "handleResponse re r m s = Inr (False, s1)"
      and "map_of (messageResponses r) ''_default'' = Some d"
      and "invoke ''_default'' d m s1 = Inr s2"
      and "respondToLine re r m s = Inr (push_message m s2)"
    | (plain) h s1 where "handleResponse re r m s = Inr (h, s1)"
      and "h \<or> map_of (messageResponses r) ''_default'' = None"
      and "respondToLine re r m s = Inr (push_message m s1)"
proof (cases "handleResponse re r m s")
  case (Inl x)
  then show ?thesis
    using assms loop_throws [of "fst x" "snd x"]
    by (simp add: respondToLine_def handleExitingMessage_def)
next
  case (Inr y)
  obtain h s1 where y: "y = (h, s1)" by (cases y)
  show ?thesis
  proof (cases "h \<or> map_of (messageResponses r) ''_default'' = None")
    case True
    then show ?thesis
      using assms Inr y plain [of h s1]
      by (auto simp: respondToLine_def handleExitingMessage_def)
  next
    case False
    then obtain d where d: "map_of (messageResponses r) ''_default'' = Some d" and h: "\<not> h"
      by auto
    show ?thesis
    proof (cases "invoke ''_default'' d m s1")
      case (Inl x)
      then show ?thesis
        using assms Inr y d h default_throws [of s1 d "fst x" "snd x"]
        by (simp add: respondToLine_def handleExitingMessage_def)
    next
      case inr: (Inr s2)
      then show ?thesis
        using assms Inr y d h default_returns [of s1 d s2]
        by (simp add: respondToLine_def handleExitingMessage_def)
    qed
  qed
qed

lemma respondToLine_returns:
  assumes "respondToLine re r m s = Inr s'"
  shows "invocations s' = invocations s @ map (\<lambda>p. (p, m)) (expected_keys re r m)"
    and "pushes s' = pushes s @ [m]"
    and "last (effects s') = Pushed m"
proof -
  have "invocations s' = invocations s @ map (\<lambda>p. (p, m)) (expected_keys re r m)
      \<and> pushes s' = pushes s @ [m] \<and> last (effects s') = Pushed m"
  proof (cases "trim m = EXITING_MESSAGE")
    case True
    then show ?thesis
      using assms
      by (auto simp: respondToLine_sentinel push_message_frame resolve_hook_frame
          expected_keys_def)
  next
    case ns: False
    from ns show ?thesis
    proof (cases rule: respondToLine_cases [where re = re and r = r and m = m and s = s])
      case (loop_throws e s1)
      then show ?thesis using assms by simp
    next
      case (default_throws s1 d e s2)
      then show ?thesis using assms by simp
    next
      case (default_returns s1 d s2)
      from loop_returns [OF default_returns(1) [unfolded handleResponse_def]]
      have none: "matching_prompts re m (prompts_of r) = []"
        and inv1: "invocations s1 = invocations s"
        by (simp_all add: prompts_of_def)
      have loop1: "pushes s1 = pushes s"
        using loop_frame(1) [of re r m "map fst (messageResponses r)" False s]
          default_returns(1) by (simp add: handleResponse_def)
      have "''_default'' \<in> set (prompts_of r)"
        using default_returns(2) by (simp add: default_registered)
      then show ?thesis
        using ns none inv1 loop1 default_returns(3,4) assms
          invoke_frame(1,2) [of "''_default''" d m s1]
        by (auto simp: expected_keys_def push_message_frame)
    next
      case (plain h s1)
      from loop_returns [OF plain(1) [unfolded handleResponse_def]]
      have h: "h = (matching_prompts re m (prompts_of r) \<noteq> [])"
        and inv1: "invocations s1
            = invocations s @ map (\<lambda>p. (p, m)) (matching_prompts re m (prompts_of r))"
        by (simp_all add: prompts_of_def)
      have loop1: "pushes s1 = pushes s"
        using loop_frame(1) [of re r m "map fst (messageResponses r)" False s]
          plain(1) by (simp add: handleResponse_def)
      show ?thesis
        using ns h inv1 loop1 plain(2,3) assms
        by (auto simp: expected_keys_def push_message_frame default_registered)
    qed
  qed
  then show "invocations s' = invocations s @ map (\<lambda>p. (p, m)) (expected_keys re r m)"
    and "pushes s' = pushes s @ [m]" and "last (effects s') = Pushed m"
    by simp_all
qed

lemma respondToLine_thrown:
  assumes "respondToLine re r m s = Inl (e, s')"
  shows "pushes s' = pushes s"
proof (cases "trim m = EXITING_MESSAGE")
  case True
  then show ?thesis using assms by (simp add: respondToLine_sentinel)
next
  case ns: False
  have loop1: "pushes (loop_state (handleResponse re r m s)) = pushes s"
    using loop_frame(1) [of re r m "map fst (messageResponses r)" False s]
    by (simp add: handleResponse_def)
  from ns show ?thesis
  proof (cases rule: respondToLine_cases [where re = re and r = r and m = m and s = s])
    case (loop_throws e s1)
    then show ?thesis using assms loop1 by simp
  next
    case (default_throws s1 d e s2)
    then show ?thesis
      using assms loop1 invoke_frame(2) [of "''_default''" d m s1] by simp
  next
    case (default_returns s1 d s2)
    then show ?thesis using assms by simp
  next
    case (plain h s1)
    then show ?thesis using assms by simp
  qed
qed

lemma respondToLine_frame:
  "promise s \<noteq> Pending \<Longrightarrow> promise (state_of (respondToLine re r m s)) = promise s"
  "callbacks_keep_history r \<Longrightarrow>
     logicMessages (state_of (respondToLine re r m s))
       = logicMessages s @ (case respondToLine re r m s of Inl x \<Rightarrow> [] | Inr s' \<Rightarrow> [m])"
proof -
  have loop2: "promise s \<noteq> Pending \<Longrightarrow>
      promise (loop_state (handleResponse re r m s)) = promise s"
    using loop_frame(2) [of s re r m "map fst (messageResponses r)" False]
    by (simp add: handleResponse_def)
  show "promise (state_of (respondToLine re r m s)) = promise s" if "promise s \<noteq> Pending"
  proof (cases "trim m = EXITING_MESSAGE")
    case True
    then show ?thesis
      using that by (simp add: respondToLine_sentinel push_message_frame resolve_hook_frame)
  next
    case ns: False
    from ns show ?thesis
    proof (cases rule: respondToLine_cases [where re = re and r = r and m = m and s = s])
      case (loop_throws e s1)
      then show ?thesis using loop2 that by simp
    next
      case (default_throws s1 d e s2)
      then show ?thesis
        using loop2 that invoke_frame(3) [of s1 "''_default''" d m] by simp
    next
      case (default_returns s1 d s2)
      then show ?thesis
        using loop2 that invoke_frame(3) [of s1 "''_default''" d m]
        by (simp add: push_message_frame)
    next
      case (plain h s1)
      then show ?thesis using loop2 that by (simp add: push_message_frame)
    qed
  qed
  show "logicMessages (state_of (respondToLine re r m s))
       = logicMessages s @ (case respondToLine re r m s of Inl x \<Rightarrow> [] | Inr s' \<Rightarrow> [m])"
    if keep: "callbacks_keep_history r"
  proof (cases "trim m = EXITING_MESSAGE")
    case True
    then show ?thesis
      by (simp add: respondToLine_sentinel push_message_frame resolve_hook_frame)
  next
    case ns: False
    have loop3: "logicMessages (loop_state (handleResponse re r m s)) = logicMessages s"
      using loop_keeps [OF keep, of re m "map fst (messageResponses r)" False s]
      by (simp add: handleResponse_def)
    from ns show ?thesis
    proof (cases rule: respondToLine_cases [where re = re and r = r and m = m and s = s])
      case (loop_throws e s1)
      then show ?thesis using loop3 by simp
    next
      case (default_throws s1 d e s2)
      then show ?thesis
        using loop3 invoke_frame(4) [OF table_keeps [OF keep default_throws(2)],
            of "''_default''" m s1] by simp
    next
      case (default_returns s1 d s2)
      then show ?thesis
        using loop3 invoke_frame(4) [OF table_keeps [OF keep default_returns(2)],
            of "''_default''" m s1] by (simp add: push_message_frame)
    next
      case (plain h s1)
      then show ?thesis using loop3 by (simp add: push_message_frame)
    qed
  qed
qed

lemma respond_frame:
  "promise s \<noteq> Pending \<Longrightarrow> promise (state_of (respondToMessage re r m s)) = promise s"
  "promise s \<noteq> Pending \<Longrightarrow> promise (state_of (forEach_respond re r ms s)) = promise s"
proof (induction re r m s and re r ms s rule: respondToMessage_forEach_respond.induct)
  case (1 re r message s)
  then show ?case
    by (cases "includes_newline (trim message)")
      (simp_all add: respondToMessage.simps respondToLine_frame(1))
next
  case (2 re r s)
  then show ?case by simp
next
  case (3 re r msg msgs s)
  show ?case
  proof (cases "respondToMessage re r msg s")
    case (Inl x)
    then show ?thesis
      using 3(1) [OF 3(3)] by (cases x) simp
  next
    case (Inr s')
    then have "promise s' = promise s"
      using 3(1) [OF 3(3)] by simp
    then show ?thesis
      using 3(2) [OF Inr] 3(3) Inr by simp
  qed
qed

lemma respond_append_only:
  "callbacks_keep_history r \<Longrightarrow>
     prefix (logicMessages s) (logicMessages (state_of (respondToMessage re r m s)))"
  "callbacks_keep_history r \<Longrightarrow>
     prefix (logicMessages s) (logicMessages (state_of (forEach_respond re r ms s)))"
proof (induction re r m s and re r ms s rule: respondToMessage_forEach_respond.induct)
  case (1 re r message s)
  then show ?case
    by (cases "includes_newline (trim message)")
      (simp_all add: respondToMessage.simps respondToLine_frame(2))
next
  case (2 re r s)
  then show ?case by simp
next
  case (3 re r msg msgs s)
  show ?case
  proof (cases "respondToMessage re r msg s")
    case (Inl x)
    then show ?thesis
      using 3(1) [OF 3(3)] by (cases x) simp
  next
    case (Inr s')
    then have "prefix (logicMessages s) (logicMessages s')"
      using 3(1) [OF 3(3)] by simp
    moreover have "prefix (logicMessages s') (logicMessages (state_of (forEach_respond re r msgs s')))"
      using 3(2) [OF Inr 3(3)] .
    ultimately show ?thesis
      using Inr by (auto intro: prefix_order.trans)
  qed
qed

lemma split_lines_single: "list_all (\<lambda>l. \<not> includes_newline (trim l)) (split_newline s)"
  using split_line_single by (auto simp: list_all_iff)

lemma forEach_returns:
  assumes "list_all (\<lambda>l. \<not> includes_newline (trim l)) ls"
    and "forEach_respond re r ls s = Inr s'"
  shows "invocations s' = invocations s @ expected_calls re r ls"
    and "pushes s' = pushes s @ ls"
    and "callbacks_keep_history r \<Longrightarrow> logicMessages s' = logicMessages s @ ls"
proof -
  have "invocations s' = invocations s @ expected_calls re r ls
      \<and> pushes s' = pushes s @ ls
      \<and> (callbacks_keep_history r \<longrightarrow> logicMessages s' = logicMessages s @ ls)"
    using assms
  proof (induction ls arbitrary: s)
    case Nil
    then show ?case by (simp add: expected_calls_def)
  next
    case (Cons l ls)
    then have single: "\<not> includes_newline (trim l)"
      and rest: "list_all (\<lambda>l. \<not> includes_newline (trim l)) ls"
      by simp_all
    obtain s1 where s1: "respondToLine re r l s = Inr s1"
      and tail: "forEach_respond re r ls s1 = Inr s'"
      using Cons.prems(2) single
      by (cases "respondToLine re r l s") (auto simp: respondToMessage_single)
    have keep1: "logicMessages s1 = logicMessages s @ [l]" if "callbacks_keep_history r"
      using respondToLine_frame(2) [OF that, of re l s] s1 by simp
    from Cons.IH [OF rest tail] respondToLine_returns(1,2) [OF s1] keep1
    show ?case
      by (auto simp: expected_calls_def)
  qed
  then show "invocations s' = invocations s @ expected_calls re r ls"
    and "pushes s' = pushes s @ ls"
    and "callbacks_keep_history r \<Longrightarrow> logicMessages s' = logicMessages s @ ls"
    by simp_all
qed

lemma forEach_thrown:
  assumes "list_all (\<lambda>l. \<not> includes_newline (trim l)) ls"
    and "forEach_respond re r ls s = Inl (e, s')"
  shows "\<exists>n < length ls. pushes s' = pushes s @ take n ls"
  using assms
proof (induction ls arbitrary: s)
  case Nil
  then show ?case by simp
next
  case (Cons l ls)
  then have single: "\<not> includes_newline (trim l)"
    and rest: "list_all (\<lambda>l. \<not> includes_newline (trim l)) ls"
    by simp_all
  show ?case
  proof (cases "respondToLine re r l s")
    case (Inl x)
    then have "respondToLine re r l s = Inl (e, s')"
      using Cons.prems(2) single by (simp add: respondToMessage_single)
    from respondToLine_thrown [OF this] have "pushes s' = pushes s @ take 0 (l # ls)"
      by simp
    then show ?thesis by blast
  next
    case (Inr s1)
    then have "forEach_respond re r ls s1 = Inl (e, s')"
      using Cons.prems(2) single by (simp add: respondToMessage_single)
    from Cons.IH [OF rest this] obtain n where n: "n < length ls"
        "pushes s' = pushes s1 @ take n ls"
      by blast
    then have "pushes s' = pushes s @ take (Suc n) (l # ls)"
      using respondToLine_returns(2) [OF Inr] by simp
    then show ?thesis
      using n(1) by (metis Suc_less_eq length_Cons)
  qed
qed

lemma respondToMessage_returns:
  assumes "respondToMessage re r m s = Inr s'"
  shows "invocations s' = invocations s @ expected_calls re r (delivered_lines m)"
    and "pushes s' = pushes s @ delivered_lines m"
    and "callbacks_keep_history r \<Longrightarrow> logicMessages s' = logicMessages s @ delivered_lines m"
proof -
  have "invocations s' = invocations s @ expected_calls re r (delivered_lines m)
      \<and> pushes s' = pushes s @ delivered_lines m
      \<and> (callbacks_keep_history r \<longrightarrow> logicMessages s' = logicMessages s @ delivered_lines m)"
  proof (cases "includes_newline (trim m)")
    case True
    then have "forEach_respond re r (split_newline (trim m)) s = Inr s'"
      using assms by (simp add: respondToMessage_multi)
    from forEach_returns [OF split_lines_single this] True show ?thesis
      by (simp add: delivered_lines_def)
  next
    case False
    then have line: "respondToLine re r m s = Inr s'"
      using assms by (simp add: respondToMessage_single)
    have "logicMessages s' = logicMessages s @ [m]" if "callbacks_keep_history r"
      using respondToLine_frame(2) [OF that, of re m s] line by simp
    then show ?thesis
      using respondToLine_returns(1,2) [OF line] False
      by (simp add: delivered_lines_def expected_calls_def)
  qed
  then show "invocations s' = invocations s @ expected_calls re r (delivered_lines m)"
    and "pushes s' = pushes s @ delivered_lines m"
    and "callbacks_keep_history r \<Longrightarrow> logicMessages s' = logicMessages s @ delivered_lines m"
    by simp_all
qed

lemma respondToLine_completes:
  assumes "valid_prompts re (prompts_of r)" and "callbacks_return r"
  shows "\<exists>s'. respondToLine re r m s = Inr s'"
proof (cases "trim m = EXITING_MESSAGE")
  case True
  then show ?thesis by (simp add: respondToLine_sentinel)
next
  case ns: False
  have "set (prompts_of r) \<subseteq> fst ` set (messageResponses r)"
    by (simp add: prompts_of_def)
  from loop_completes [OF assms(1) this assms(2), of m False s]
  obtain h s1 where loop: "handleResponse re r m s = Inr (h, s1)"
    by (auto simp: handleResponse_def prompts_of_def)
  from ns show ?thesis
  proof (cases rule: respondToLine_cases [where re = re and r = r and m = m and s = s])
    case (loop_throws e s1)
    then show ?thesis using loop by simp
  next
    case (default_throws s1 d e s2)
    then show ?thesis
      using invoke_never_throws [OF table_returns [OF assms(2) default_throws(2)],
          of "''_default''" m s1] by simp
  next
    case (default_returns s1 d s2)
    then show ?thesis by simp
  next
    case (plain h s1)
    then show ?thesis by simp
  qed
qed

lemma forEach_completes:
  assumes "valid_prompts re (prompts_of r)" and "callbacks_return r"
    and "list_all (\<lambda>l. \<not> includes_newline (trim l)) ls"
  shows "\<exists>s'. forEach_respond re r ls s = Inr s'"
  using assms(3)
proof (induction ls arbitrary: s)
  case Nil
  then show ?case by simp
next
  case (Cons l ls)
  then have single: "\<not> includes_newline (trim l)"
    and rest: "list_all (\<lambda>l. \<not> includes_newline (trim l)) ls"
    by simp_all
  from respondToLine_completes [OF assms(1,2), of l s]
  obtain s1 where "respondToLine re r l s = Inr s1" by blast
  then show ?case
    using Cons.IH [OF rest, of s1] single by (simp add: respondToMessage_single)
qed

lemma respondToMessage_completes:
  assumes "valid_prompts re (prompts_of r)" and "callbacks_return r"
  shows "\<exists>s'. respondToMessage re r m s = Inr s'"
proof (cases "includes_newline (trim m)")
  case True
  then show ?thesis
    using forEach_completes [OF assms split_lines_single, of "trim m" s]
    by (simp add: respondToMessage_multi)
next
  case False
  then show ?thesis
    using respondToLine_completes [OF assms, of m s]
    by (simp add: respondToMessage_single)
qed

section \<open>Counting invocations\<close>

lemma count_list_map_pair: "count_list (map (\<lambda>p. (p, m)) ps) (q, m) = count_list ps q"
  by (induction ps) simp_all

lemma count_list_filter:
  "count_list (filter P ps) q = (if P q then count_list ps q else 0)"
  by (induction ps) simp_all

lemma count_list_distinct:
  "distinct ps \<Longrightarrow> count_list ps q = (if q \<in> set ps then 1 else 0)"
  by (induction ps) auto

lemma count_matching:
  assumes "distinct ps"
  shows "count_list (map (\<lambda>p. (p, m)) (matching_prompts re m ps)) (q, m)
    = (if q \<in> set ps \<and> q \<noteq> ''_default'' \<and> spec_matches re q m then 1 else 0)"
  using assms
  by (simp add: count_list_map_pair matching_prompts_def count_list_filter count_list_distinct)

lemma count_expected:
  assumes "distinct (prompts_of r)" and "trim m \<noteq> EXITING_MESSAGE"
  shows "q \<noteq> ''_default'' \<Longrightarrow>
      count_list (map (\<lambda>p. (p, m)) (expected_keys re r m)) (q, m)
      = (if q \<in> set (prompts_of r) \<and> spec_matches re q m then 1 else 0)"
    and "count_list (map (\<lambda>p. (p, m)) (expected_keys re r m)) (''_default'', m)
      = (if matching_prompts re m (prompts_of r) = [] \<and> ''_default'' \<in> set (prompts_of r)
         then 1 else 0)"
proof -
  show "count_list (map (\<lambda>p. (p, m)) (expected_keys re r m)) (''_default'', m)
      = (if matching_prompts re m (prompts_of r) = [] \<and> ''_default'' \<in> set (prompts_of r)
         then 1 else 0)"
    using assms(2) count_matching [OF assms(1), of m re "''_default''"]
    by (simp add: expected_keys_def)
  assume q: "q \<noteq> ''_default''"
  show "count_list (map (\<lambda>p. (p, m)) (expected_keys re r m)) (q, m)
      = (if q \<in> set (prompts_of r) \<and> spec_matches re q m then 1 else 0)"
  proof (cases "matching_prompts re m (prompts_of r) = []")
    case True
    then have "\<not> (q \<in> set (prompts_of r) \<and> spec_matches re q m)"
      using q by (auto simp: matching_prompts_def filter_empty_conv)
    then show ?thesis
      using True q assms(2) by (simp add: expected_keys_def)
  next
    case False
    then show ?thesis
      using q assms(2) count_matching [OF assms(1), of m re q]
      by (simp add: expected_keys_def)
  qed
qed

section \<open>Facts about the example inputs\<close>

lemma trim_simps [simp]:
  "trim '' Exiting... '' = ''Exiting...''"
  "trim ''Exiting...'' = ''Exiting...''"
  "trim ''READY'' = ''READY''"
  "trim ''foo'' = ''foo''"
  "trim ''bar'' = ''bar''"
  "trim ''C++'' = ''C++''"
  by (simp_all add: trim_def js_whitespace_def)

lemma plain_engine_simps [simp]:
  "plain_engine ''('' = None"
  "plain_engine ''C++'' = None"
  "plain_engine ''READY'' = Some (occurs_in ''READY'')"
  "plain_engine ''EADY'' = Some (occurs_in ''EADY'')"
  "plain_engine ''foo'' = Some (occurs_in ''foo'')"
  "plain_engine ''oo'' = Some (occurs_in ''oo'')"
  by (simp_all add: plain_engine_def plain_chars_def)

lemma single_line_simps [simp]:
  "\<not> includes_newline ''READY''"
  "\<not> includes_newline ''foo''"
  "\<not> includes_newline ''bar''"
  "\<not> includes_newline ''C++''"
  "\<not> includes_newline ''Exiting...''"
  by (simp_all add: includes_newline_def newline_def)

lemma example_callbacks [simp]:
  "never_throws silent" "never_throws reply" "never_throws eraser"
  "keeps_history silent" "keeps_history reply" "keeps_history thrower"
  by (simp_all add: never_throws_def keeps_history_def silent_def reply_def eraser_def
      thrower_def)

lemma example_valid: "valid_prompts plain_engine (prompts_of example_responder)"
  by (simp add: valid_prompts_def prompts_of_def example_responder_def)

lemma example_distinct: "distinct (prompts_of example_responder)"
  by (simp add: prompts_of_def example_responder_def)

lemma example_returns: "callbacks_return example_responder"
  by (simp add: callbacks_return_def example_responder_def)

lemma example_keeps: "callbacks_keep_history example_responder"
  by (simp add: callbacks_keep_history_def example_responder_def)

lemma default_valid: "valid_prompts plain_engine (prompts_of default_responder)"
  by (simp add: valid_prompts_def prompts_of_def default_responder_def)

lemma default_returns: "callbacks_return default_responder"
  by (simp add: callbacks_return_def default_responder_def)

lemma default_keeps: "callbacks_keep_history default_responder"
  by (simp add: callbacks_keep_history_def default_responder_def)

lemma two_lines_trim: "trim two_lines = two_lines"
  by (simp add: two_lines_def trim_def js_whitespace_def newline_def)

lemma two_lines_split: "split_newline two_lines = [''foo'', ''bar'']"
  by (simp add: two_lines_def newline_def)

lemma two_lines_multi: "includes_newline two_lines"
  by (simp add: two_lines_def includes_newline_def)

lemma line_and_sentinel_trim: "trim line_and_sentinel = line_and_sentinel"
  by (simp add: line_and_sentinel_def trim_def js_whitespace_def newline_def)

lemma line_and_sentinel_split: "split_newline line_and_sentinel = [''foo'', ''Exiting...'']"
  by (simp add: line_and_sentinel_def newline_def)

lemma line_and_sentinel_multi: "includes_newline line_and_sentinel"
  by (simp add: line_and_sentinel_def includes_newline_def)

lemma eval_line_defs:
  "respondToMessage re r ''foo'' s = respondToLine re r ''foo'' s"
  "respondToMessage re r ''bar'' s = respondToLine re r ''bar'' s"
  "respondToMessage re r ''Exiting...'' s = respondToLine re r ''Exiting...'' s"
  by (simp_all add: respondToMessage_single)

section \<open>The state of a run between turns\<close>

lemma react_frame [simp]:
  "shared (react s) = shared s"
  "listening (react s) = listening s"
  "interpreter (react s) = interpreter s"
  "terminated (react s) = terminated s"
  "uncaught (react s) = uncaught s"
  by (simp_all add: react_def run_catch_def onRejected_def onFulfilled_def outer_reject_def
      split: settle.splits option.splits)

lemma react_idle: "reacted s \<Longrightarrow> react s = s"
  by (simp add: react_def)

lemma react_pending: "promise (shared s) = Pending \<Longrightarrow> react s = s"
  by (simp add: react_def)

lemma react_fulfilled:
  assumes "\<not> reacted s" and "promise (shared s) = Fulfilled result" and "interpreter s"
  shows "react s =
     (if terminated s then s\<lparr>reacted := True\<rparr>
      else s\<lparr>reacted := True, signals := signals s @ [EndSignal], endCallback := Some result\<rparr>)"
  using assms by (simp add: react_def onFulfilled_def)

lemma react_rejected:
  assumes "\<not> reacted s" and "promise (shared s) = Rejected (Some err)" and "interpreter s"
  shows "react s =
     (if terminated s then s\<lparr>reacted := True, outerCalls := outerCalls s @ [Refuse err]\<rparr>
      else s\<lparr>reacted := True, signals := signals s @ [KillSignal],
             outerCalls := outerCalls s @ [Refuse err]\<rparr>)"
  using assms by (simp add: react_def run_catch_def onRejected_def outer_reject_def)

lemma react_rejected_without_reason:
  assumes "\<not> reacted s" and "promise (shared s) = Rejected None"
  shows "react s = s\<lparr>reacted := True,
      unhandled := unhandled s
        @ [TypeError ''Cannot read properties of undefined (reading message)'']\<rparr>"
  using assms by (simp add: react_def run_catch_def onRejected_def)

lemma handle_event_promise:
  assumes "promise (shared s) \<noteq> Pending"
  shows "promise (shared (handle_event re r ev s)) = promise (shared s)"
proof (cases ev)
  case (MessageEvent m)
  show ?thesis
  proof (cases "respondToMessage re r m (shared s)")
    case (Inl x)
    then show ?thesis
      using MessageEvent respond_frame(1) [OF assms, of re r m]
      by (cases x) simp
  next
    case (Inr sh)
    then show ?thesis
      using MessageEvent respond_frame(1) [OF assms, of re r m] by simp
  qed
next
  case (ErrorEvent err)
  then show ?thesis
    using assms by (simp add: reject_hook_frame)
next
  case ExitEvent
  then show ?thesis by simp
next
  case (EndReturned err)
  then show ?thesis
    by (simp add: end_callback_def outer_resolve_def outer_reject_def
        split: option.splits)
qed

lemma handle_event_frame:
  "reacted (handle_event re r ev s) = reacted s"
  "signals (handle_event re r ev s) = signals s"
  "interpreter (handle_event re r ev s) = interpreter s"
  "listening (handle_event re r ev s) = listening s"
  by (cases ev; simp add: end_callback_def outer_resolve_def outer_reject_def
        split: option.splits sum.splits prod.splits)+

lemma handle_event_quiet:
  "endCallback s = None \<Longrightarrow> endCallback (handle_event re r ev s) = None"
  "endCallback s = None \<Longrightarrow> outerCalls (handle_event re r ev s) = outerCalls s"
  by (cases ev; simp add: end_callback_def split: option.splits sum.splits prod.splits)+

lemma handle_event_waiting:
  "\<not> is_end_return ev \<Longrightarrow> endCallback (handle_event re r ev s) = endCallback s"
  "\<not> is_end_return ev \<Longrightarrow> outerCalls (handle_event re r ev s) = outerCalls s"
  by (cases ev; simp split: sum.splits prod.splits)+

lemma events_frame:
  "reacted (fold (handle_event re r) evs s) = reacted s"
  "signals (fold (handle_event re r) evs s) = signals s"
  "interpreter (fold (handle_event re r) evs s) = interpreter s"
  "listening (fold (handle_event re r) evs s) = listening s"
  by (induction evs arbitrary: s; simp add: handle_event_frame)+

lemma events_promise:
  "promise (shared s) \<noteq> Pending \<Longrightarrow>
     promise (shared (fold (handle_event re r) evs s)) = promise (shared s)"
  by (induction evs arbitrary: s) (simp_all add: handle_event_promise)

lemma events_quiet:
  "endCallback s = None \<Longrightarrow>
     endCallback (fold (handle_event re r) evs s) = None
     \<and> outerCalls (fold (handle_event re r) evs s) = outerCalls s"
  by (induction evs arbitrary: s) (simp_all add: handle_event_quiet)

lemma events_waiting:
  "list_all (\<lambda>ev. \<not> is_end_return ev) evs \<Longrightarrow>
     endCallback (fold (handle_event re r) evs s) = endCallback s
     \<and> outerCalls (fold (handle_event re r) evs s) = outerCalls s"
  by (induction evs arbitrary: s) (simp_all add: handle_event_waiting)

lemma run_snoc: "run re r args b (turns @ [evs]) = turn re r evs (run re r args b turns)"
  by (simp add: run_def)

lemma run_append:
  "run re r args b (turns @ turns') = fold (turn re r) turns' (run re r args b turns)"
  by (simp add: run_def)

lemma inv_start: "settled_inv (react (executor b (initial_state args)))"
proof (cases b)
  case (ThrowsBeforeHandle err)
  then show ?thesis
    by (simp add: settled_inv_def initial_state_def react_def run_catch_def onRejected_def
        reject_hook_def log_effect_def)
next
  case (ThrowsAfterHandle err)
  then show ?thesis
    by (simp add: settled_inv_def initial_state_def react_def run_catch_def onRejected_def
        reject_hook_def log_effect_def outer_reject_def)
next
  case Spawns
  then show ?thesis
    by (simp add: settled_inv_def initial_state_def react_def)
qed

lemma turn_settled:
  assumes "settled_inv s" and "promise (shared s) \<noteq> Pending"
  shows "promise (shared (turn re r evs s)) = promise (shared s)"
    and "signals (turn re r evs s) = signals s"
    and "reacted (turn re r evs s)"
proof -
  let ?h = "fold (handle_event re r) evs s"
  have ran: "reacted ?h"
    using assms by (simp add: events_frame settled_inv_def)
  then have idle: "turn re r evs s = ?h"
    by (simp add: turn_def react_idle)
  show "promise (shared (turn re r evs s)) = promise (shared s)"
    using idle events_promise [OF assms(2)] by simp
  show "signals (turn re r evs s) = signals s"
    using idle by (simp add: events_frame)
  show "reacted (turn re r evs s)"
    using idle ran by simp
qed

lemma turn_pending:
  assumes "settled_inv s" and "promise (shared s) = Pending"
  shows "(case promise (shared (turn re r evs s)) of
            Pending \<Rightarrow> signals (turn re r evs s) = []
          | Fulfilled result \<Rightarrow>
              signals (turn re r evs s)
                = (if terminated (turn re r evs s) then [] else [EndSignal])
          | Rejected reason \<Rightarrow>
              (case reason of
                 None \<Rightarrow> signals (turn re r evs s) = []
               | Some err \<Rightarrow>
                   signals (turn re r evs s)
                     = (if terminated (turn re r evs s) then [] else [KillSignal])))"
    and "reacted (turn re r evs s) \<longleftrightarrow> promise (shared (turn re r evs s)) \<noteq> Pending"
    and "promise (shared (turn re r evs s)) = Pending \<Longrightarrow>
          outerCalls (turn re r evs s) = [] \<and> endCallback (turn re r evs s) = None"
    and "interpreter (turn re r evs s)" and "listening (turn re r evs s)"
proof -
  let ?h = "fold (handle_event re r) evs s"
  have s: "\<not> reacted s" "signals s = []" "outerCalls s = []" "endCallback s = None"
      "interpreter s" "listening s"
    using assms by (simp_all add: settled_inv_def)
  have h: "\<not> reacted ?h" "signals ?h = []" "outerCalls ?h = []" "endCallback ?h = None"
      "interpreter ?h" "listening ?h"
    using s events_quiet [of s re r evs] by (simp_all add: events_frame)
  show "interpreter (turn re r evs s)" and "listening (turn re r evs s)"
    using h by (simp_all add: turn_def)
  show "reacted (turn re r evs s) \<longleftrightarrow> promise (shared (turn re r evs s)) \<noteq> Pending"
  proof (cases "promise (shared ?h)")
    case Pending
    then show ?thesis using h by (simp add: turn_def react_pending)
  next
    case (Fulfilled result)
    then show ?thesis using h by (simp add: turn_def react_fulfilled)
  next
    case (Rejected reason)
    then show ?thesis
      using h by (cases reason)
        (simp_all add: turn_def react_rejected react_rejected_without_reason)
  qed
  show "promise (shared (turn re r evs s)) = Pending \<Longrightarrow>
        outerCalls (turn re r evs s) = [] \<and> endCallback (turn re r evs s) = None"
    using h by (simp add: turn_def react_pending)
  show "(case promise (shared (turn re r evs s)) of
            Pending \<Rightarrow> signals (turn re r evs s) = []
          | Fulfilled result \<Rightarrow>
              signals (turn re r evs s)
                = (if terminated (turn re r evs s) then [] else [EndSignal])
          | Rejected reason \<Rightarrow>
              (case reason of
                 None \<Rightarrow> signals (turn re r evs s) = []
               | Some err \<Rightarrow>
                   signals (turn re r evs s)
                     = (if terminated (turn re r evs s) then [] else [KillSignal])))"
  proof (cases "promise (shared ?h)")
    case Pending
    then show ?thesis
      using h by (simp add: turn_def react_pending)
  next
    case (Fulfilled result)
    then show ?thesis
      using h by (simp add: turn_def react_fulfilled)
  next
    case (Rejected reason)
    then show ?thesis
      using h by (cases reason)
        (simp_all add: turn_def react_rejected react_rejected_without_reason)
  qed
qed

lemma inv_turn:
  assumes "settled_inv s"
  shows "settled_inv (turn re r evs s)"
proof (cases "promise (shared s) = Pending")
  case True
  from turn_pending [OF assms True, of re r evs]
  show ?thesis
    by (auto simp: settled_inv_def split: settle.splits option.splits if_splits)
next
  case False
  from turn_settled [OF assms False, of re r evs] assms False
  show ?thesis
    by (simp add: settled_inv_def)
qed

lemma inv_fold: "settled_inv s \<Longrightarrow> settled_inv (fold (turn re r) turns s)"
  by (induction turns arbitrary: s) (simp_all add: inv_turn)

lemma inv_run: "settled_inv (run re r args b turns)"
  by (simp add: run_def inv_fold inv_start)

lemma turn_stuck:
  assumes "reacted s" and "endCallback s = None"
  shows "reacted (turn re r evs s) \<and> endCallback (turn re r evs s) = None
      \<and> outerCalls (turn re r evs s) = outerCalls s"
proof -
  have "reacted (fold (handle_event re r) evs s)"
    using assms(1) by (simp add: events_frame)
  then have "turn re r evs s = fold (handle_event re r) evs s"
    by (simp add: turn_def react_idle)
  then show ?thesis
    using assms events_quiet [OF assms(2), of re r evs] by (simp add: events_frame)
qed

lemma fold_stuck:
  "reacted s \<Longrightarrow> endCallback s = None \<Longrightarrow>
     outerCalls (fold (turn re r) turns s) = outerCalls s"
proof (induction turns arbitrary: s)
  case Nil
  then show ?case by simp
next
  case (Cons evs turns)
  from turn_stuck [OF Cons.prems, of re r evs] Cons.IH [of "turn re r evs s"]
  show ?case by simp
qed

lemma fold_settled:
  "settled_inv s \<Longrightarrow> promise (shared s) \<noteq> Pending \<Longrightarrow>
     promise (shared (fold (turn re r) turns s)) = promise (shared s)"
proof (induction turns arbitrary: s)
  case Nil
  then show ?case by simp
next
  case (Cons evs turns)
  from turn_settled(1) [OF Cons.prems, of re r evs] inv_turn [OF Cons.prems(1), of re r evs]
    Cons.IH [of "turn re r evs s"] Cons.prems(2)
  show ?case by simp
qed

lemma turn_waiting:
  assumes "reacted s" and "list_all (\<lambda>ev. \<not> is_end_return ev) evs"
  shows "reacted (turn re r evs s) \<and> endCallback (turn re r evs s) = endCallback s
      \<and> outerCalls (turn re r evs s) = outerCalls s"
proof -
  have "reacted (fold (handle_event re r) evs s)"
    using assms(1) by (simp add: events_frame)
  then have "turn re r evs s = fold (handle_event re r) evs s"
    by (simp add: turn_def react_idle)
  then show ?thesis
    using assms(1) events_waiting [OF assms(2), of re r s] by (simp add: events_frame)
qed

lemma fold_waiting:
  "reacted s \<Longrightarrow> list_all (list_all (\<lambda>ev. \<not> is_end_return ev)) turns \<Longrightarrow>
     reacted (fold (turn re r) turns s)
     \<and> endCallback (fold (turn re r) turns s) = endCallback s
     \<and> outerCalls (fold (turn re r) turns s) = outerCalls s"
proof (induction turns arbitrary: s)
  case Nil
  then show ?case by simp
next
  case (Cons evs turns)
  then have ev: "list_all (\<lambda>ev. \<not> is_end_return ev) evs"
    and rest: "list_all (list_all (\<lambda>ev. \<not> is_end_return ev)) turns"
    by simp_all
  from turn_waiting [OF Cons.prems(1) ev, of re r] Cons.IH [of "turn re r evs s", OF _ rest]
  show ?case by simp
qed

lemma turn_end_returned:
  assumes "reacted s" and "endCallback s = Some result" and "outerCalls s = []"
  shows "outerCalls (turn re r [EndReturned (Some err)] s) = [Refuse err, Fulfil result]"
    and "outerCalls (turn re r [EndReturned None] s) = [Fulfil result]"
proof -
  have "reacted (end_callback e s)" for e
    using assms(1)
    by (simp add: end_callback_def outer_resolve_def outer_reject_def split: option.splits)
  then have "turn re r [EndReturned e] s = end_callback e s" for e
    by (simp add: turn_def react_idle)
  then show "outerCalls (turn re r [EndReturned (Some err)] s) = [Refuse err, Fulfil result]"
    and "outerCalls (turn re r [EndReturned None] s) = [Fulfil result]"
    using assms by (simp_all add: end_callback_def outer_resolve_def outer_reject_def)
qed

lemma respond_sentinel:
  "respondToMessage re r ''Exiting...'' s
     = Inr (push_message ''Exiting...'' (resolve_hook None s))"
  "respondToMessage re r '' Exiting... '' s
     = Inr (push_message '' Exiting... '' (resolve_hook None s))"
  by (simp_all add: respondToMessage_single respondToLine_sentinel EXITING_MESSAGE_def)

section \<open>The history during a run\<close>

lemma handle_event_history:
  assumes "callbacks_keep_history r"
  shows "prefix (logicMessages (shared s)) (logicMessages (shared (handle_event re r ev s)))"
proof (cases ev)
  case (MessageEvent m)
  show ?thesis
  proof (cases "respondToMessage re r m (shared s)")
    case (Inl x)
    then show ?thesis
      using MessageEvent respond_append_only(1) [OF assms, of "shared s" re m]
      by (cases x) simp
  next
    case (Inr sh)
    then show ?thesis
      using MessageEvent respond_append_only(1) [OF assms, of "shared s" re m] by simp
  qed
next
  case (ErrorEvent err)
  then show ?thesis by (simp add: reject_hook_frame)
next
  case ExitEvent
  then show ?thesis by simp
next
  case (EndReturned err)
  then show ?thesis
    by (simp add: end_callback_def outer_resolve_def outer_reject_def split: option.splits)
qed

lemma events_history:
  assumes "callbacks_keep_history r"
  shows "prefix (logicMessages (shared s))
      (logicMessages (shared (fold (handle_event re r) evs s)))"
proof (induction evs arbitrary: s)
  case Nil
  then show ?case by simp
next
  case (Cons ev evs)
  from handle_event_history [OF assms, of s re ev] Cons.IH [of "handle_event re r ev s"]
  show ?case by (auto intro: prefix_order.trans)
qed

lemma turns_history:
  assumes "callbacks_keep_history r"
  shows "prefix (logicMessages (shared s)) (logicMessages (shared (fold (turn re r) turns s)))"
proof (induction turns arbitrary: s)
  case Nil
  then show ?case by simp
next
  case (Cons evs turns)
  have "prefix (logicMessages (shared s)) (logicMessages (shared (turn re r evs s)))"
    using events_history [OF assms, of s re evs] by (simp add: turn_def)
  then show ?case
    using Cons.IH [of "turn re r evs s"] by (auto intro: prefix_order.trans)
qed

lemma handle_event_uncaught:
  "\<exists>es. uncaught (handle_event re r ev s) = uncaught s @ es"
  by (cases ev) (auto simp: end_callback_def outer_resolve_def outer_reject_def
      split: option.splits sum.splits)

lemma handle_event_delivers:
  assumes "callbacks_keep_history r" and "listening s"
    and "uncaught (handle_event re r ev s) = []"
  shows "logicMessages (shared (handle_event re r ev s))
      = logicMessages (shared s) @ concat (map delivered_lines (messages_of [ev]))"
proof (cases ev)
  case (MessageEvent m)
  show ?thesis
  proof (cases "respondToMessage re r m (shared s)")
    case (Inl x)
    then show ?thesis
      using MessageEvent assms(2,3) by (cases x) simp
  next
    case (Inr sh)
    then show ?thesis
      using MessageEvent assms(2) respondToMessage_returns(3) [OF Inr assms(1)] by simp
  qed
next
  case (ErrorEvent err)
  then show ?thesis by (simp add: reject_hook_frame)
next
  case ExitEvent
  then show ?thesis by simp
next
  case (EndReturned err)
  then show ?thesis
    by (simp add: end_callback_def outer_resolve_def outer_reject_def split: option.splits)
qed

lemma messages_of_append: "messages_of (xs @ ys) = messages_of xs @ messages_of ys"
  by (induction xs rule: messages_of.induct) simp_all

lemma events_uncaught:
  "\<exists>es. uncaught (fold (handle_event re r) evs s) = uncaught s @ es"
proof (induction evs arbitrary: s)
  case Nil
  then show ?case by simp
next
  case (Cons ev evs)
  from handle_event_uncaught [of re r ev s] Cons.IH [of "handle_event re r ev s"]
  show ?case by auto
qed

lemma events_deliver:
  assumes "callbacks_keep_history r"
  shows "listening s \<Longrightarrow> uncaught (fold (handle_event re r) evs s) = [] \<Longrightarrow>
      logicMessages (shared (fold (handle_event re r) evs s))
        = logicMessages (shared s) @ concat (map delivered_lines (messages_of evs))"
proof (induction evs arbitrary: s)
  case Nil
  then show ?case by simp
next
  case (Cons ev evs)
  let ?s1 = "handle_event re r ev s"
  have clean: "uncaught ?s1 = []"
    using events_uncaught [of re r evs ?s1] Cons.prems(2) by auto
  have l1: "listening ?s1"
    using Cons.prems(1) by (simp add: handle_event_frame)
  from Cons.IH [OF l1] Cons.prems(2) handle_event_delivers [OF assms Cons.prems(1) clean]
  show ?case
    using messages_of_append [of "[ev]" evs] by simp
qed

lemma turns_uncaught:
  "\<exists>es. uncaught (fold (turn re r) turns s) = uncaught s @ es"
proof (induction turns arbitrary: s)
  case Nil
  then show ?case by simp
next
  case (Cons evs turns)
  from events_uncaught [of re r evs s] Cons.IH [of "turn re r evs s"]
  show ?case by (auto simp: turn_def)
qed

lemma turns_deliver:
  assumes "callbacks_keep_history r"
  shows "listening s \<Longrightarrow> uncaught (fold (turn re r) turns s) = [] \<Longrightarrow>
      logicMessages (shared (fold (turn re r) turns s))
        = logicMessages (shared s) @ concat (map delivered_lines (messages_of (concat turns)))"
proof (induction turns arbitrary: s)
  case Nil
  then show ?case by simp
next
  case (Cons evs turns)
  let ?s1 = "turn re r evs s"
  have clean: "uncaught ?s1 = []"
    using turns_uncaught [of re r turns ?s1] Cons.prems(2) by auto
  then have clean': "uncaught (fold (handle_event re r) evs s) = []"
    by (simp add: turn_def)
  have l1: "listening ?s1"
    using Cons.prems(1) by (simp add: turn_def events_frame)
  have "logicMessages (shared ?s1)
      = logicMessages (shared s) @ concat (map delivered_lines (messages_of evs))"
    using events_deliver [OF assms Cons.prems(1) clean'] by (simp add: turn_def)
  then show ?case
    using Cons.IH [OF l1] Cons.prems(2) by (simp add: messages_of_append)
qed

lemma handle_event_raises_nothing:
  assumes "valid_prompts re (prompts_of r)" and "callbacks_return r"
  shows "uncaught (handle_event re r ev s) = uncaught s"
proof (cases ev)
  case (MessageEvent m)
  from respondToMessage_completes [OF assms, of m "shared s"]
  show ?thesis using MessageEvent by auto
next
  case (ErrorEvent err)
  then show ?thesis by simp
next
  case ExitEvent
  then show ?thesis by simp
next
  case (EndReturned err)
  then show ?thesis
    by (simp add: end_callback_def outer_resolve_def outer_reject_def split: option.splits)
qed

lemma run_raises_nothing:
  assumes "valid_prompts re (prompts_of r)" and "callbacks_return r"
  shows "uncaught (run re r args b turns) = []"
proof -
  have ev: "uncaught (fold (handle_event re r) evs s) = uncaught s" for evs s
    by (induction evs arbitrary: s) (simp_all add: handle_event_raises_nothing [OF assms])
  have "uncaught (fold (turn re r) turns s) = uncaught s" for s
    by (induction turns arbitrary: s) (simp_all add: turn_def ev)
  then show ?thesis
    by (cases b) (simp_all add: run_def initial_state_def)
qed

lemma run_nil_spawns:
  "run re r args Spawns [] = (initial_state args)\<lparr>interpreter := True, listening := True\<rparr>"
  by (simp add: run_def react_def initial_state_def)

lemma run_single: "run re r args b [evs] = turn re r evs (run re r args b [])"
  by (simp add: run_def)

section \<open>Claims about the responder\<close>

text \<open>
  C2. A message whose trimmed form is the exiting sentinel makes \<open>respondToMessage\<close> call
  \<open>resolve\<close> with no argument and invoke no callback, neither one of a pattern rule nor
  \<open>_default\<close>: the call of \<open>resolve\<close> and the push of the message are all that happens,
  and a promise that was pending is fulfilled with no value.
\<close>

theorem sentinel_resolves_without_dispatch:
  assumes "trim m = EXITING_MESSAGE"
  shows "\<exists>s'. respondToMessage re r m s = Inr s'
      \<and> effects s' = effects s @ [ResolveCalled None, Pushed m]
      \<and> invocations s' = invocations s
      \<and> logicMessages s' = logicMessages s @ [m]
      \<and> promise s' = (if promise s = Pending then Fulfilled None else promise s)"
proof -
  have "respondToMessage re r m s = Inr (push_message m (resolve_hook None s))"
    using assms sentinel_single [OF assms]
    by (simp add: respondToMessage_single respondToLine_sentinel)
  then show ?thesis
    by (simp add: push_message_frame resolve_hook_frame)
qed

theorem sentinel_resolves_without_dispatch_witness:
  "trim '' Exiting... '' = EXITING_MESSAGE
   \<and> (\<exists>s'. respondToMessage plain_engine example_responder '' Exiting... '' example_state = Inr s'
      \<and> effects s' = effects example_state @ [ResolveCalled None, Pushed '' Exiting... '']
      \<and> invocations s' = invocations example_state
      \<and> logicMessages s' = logicMessages example_state @ ['' Exiting... '']
      \<and> promise s' = (if promise example_state = Pending then Fulfilled None
                      else promise example_state))"
proof -
  have h: "trim '' Exiting... '' = EXITING_MESSAGE"
    by (simp add: EXITING_MESSAGE_def)
  show ?thesis
    using h sentinel_resolves_without_dispatch [OF h] by simp
qed

text \<open>
  C3, amended. When the dispatch of a single-line message that is not the sentinel runs to
  its end, with no exception thrown on the way, every key other than \<open>_default\<close> that
  matches the message has had its callback invoked exactly once and no other such key has,
  and \<open>_default\<close> has been invoked exactly once if no other key matched and \<open>_default\<close>
  is registered, and not at all otherwise.
\<close>

theorem dispatch_fires_each_match_once:
  assumes "distinct (prompts_of r)"
    and "\<not> includes_newline (trim m)"
    and "trim m \<noteq> EXITING_MESSAGE"
    and "respondToMessage re r m s = Inr s'"
  shows "count_list (invocations s') (p, m) = count_list (invocations s) (p, m)
          + (if p = ''_default''
             then (if matching_prompts re m (prompts_of r) = []
                      \<and> ''_default'' \<in> set (prompts_of r) then 1 else 0)
             else (if p \<in> set (prompts_of r) \<and> spec_matches re p m then 1 else 0))"
proof -
  have "respondToLine re r m s = Inr s'"
    using assms(2,4) by (simp add: respondToMessage_single)
  then have inv: "invocations s' = invocations s @ map (\<lambda>p. (p, m)) (expected_keys re r m)"
    by (rule respondToLine_returns(1))
  show ?thesis
  proof (cases "p = ''_default''")
    case True
    then show ?thesis
      using count_expected(2) [OF assms(1,3), of re] inv by simp
  next
    case False
    then show ?thesis
      using count_expected(1) [OF assms(1,3) False, of re] inv by simp
  qed
qed

theorem dispatch_fires_each_match_once_witness:
  "distinct (prompts_of example_responder)
   \<and> \<not> includes_newline (trim ''READY'')
   \<and> trim ''READY'' \<noteq> EXITING_MESSAGE
   \<and> (\<exists>s'. respondToMessage plain_engine example_responder ''READY'' example_state = Inr s'
      \<and> count_list (invocations s') (''READY'', ''READY'') = 1
      \<and> count_list (invocations s') (''EADY'', ''READY'') = 1
      \<and> count_list (invocations s') (''_default'', ''READY'') = 0)"
proof -
  have h2: "\<not> includes_newline (trim ''READY'')" by simp
  have h3: "trim ''READY'' \<noteq> EXITING_MESSAGE" by (simp add: EXITING_MESSAGE_def)
  obtain s' where h4:
      "respondToMessage plain_engine example_responder ''READY'' example_state = Inr s'"
    using respondToMessage_completes [OF example_valid example_returns] by blast
  have m: "''READY'' \<in> set (prompts_of example_responder)"
      "''EADY'' \<in> set (prompts_of example_responder)"
      "spec_matches plain_engine ''EADY'' ''READY''"
      "spec_matches plain_engine ''READY'' ''READY''"
      "matching_prompts plain_engine ''READY'' (prompts_of example_responder) \<noteq> []"
      "invocations example_state = []"
    by (simp_all add: prompts_of_def example_responder_def spec_matches_def
        matching_prompts_def invocations_def example_state_def)
  show ?thesis
    using example_distinct h2 h3 h4 m
      dispatch_fires_each_match_once [OF example_distinct h2 h3 h4, of "''READY''"]
      dispatch_fires_each_match_once [OF example_distinct h2 h3 h4, of "''EADY''"]
      dispatch_fires_each_match_once [OF example_distinct h2 h3 h4, of "''_default''"]
    by simp
qed

text \<open>C3 as stated fails when a callback throws, which the core does not catch: the keys
  \<open>foo\<close> and \<open>oo\<close> both match the message \<open>foo\<close>, the callback of \<open>foo\<close> throws, and
  the callback of \<open>oo\<close> is never invoked.\<close>

theorem matching_key_after_throwing_callback_not_invoked:
  "\<not> includes_newline (trim ''foo'')
   \<and> trim ''foo'' \<noteq> EXITING_MESSAGE
   \<and> ''oo'' \<in> set (prompts_of throwing_responder)
   \<and> spec_matches plain_engine ''oo'' ''foo''
   \<and> (\<exists>s'. respondToMessage plain_engine throwing_responder ''foo'' example_state
          = Inl (Failure ''boom'', s')
      \<and> invocations s' = [(''foo'', ''foo'')]
      \<and> count_list (invocations s') (''oo'', ''foo'') = 0)"
  by (simp add: respondToMessage_single respondToLine_def handleExitingMessage_def
      EXITING_MESSAGE_def handleResponse_def throwing_responder_def prompts_of_def
      spec_matches_def invoke_def thrower_def log_effect_def invocations_def
      example_state_def)

text \<open>
  C7, amended. A message whose trimmed form has a line break is handled as the \<open>forEach\<close>
  of \<open>respondToMessage\<close> over the lines of the trimmed message, in order, and is itself
  neither dispatched nor pushed. A throw during the dispatch of a line ends the
  \<open>forEach\<close>: the lines before it have been pushed, in order, and no other. When nothing
  is thrown, every line has been dispatched and pushed in order, so that the history ends
  with the lines if no callback writes into the array; and when no key matches any line
  and \<open>_default\<close> is registered, \<open>_default\<close> has been invoked once for each line that is
  not the sentinel.
\<close>

theorem multiline_message_is_dispatched_line_by_line:
  assumes "includes_newline (trim m)"
  shows "respondToMessage re r m s = forEach_respond re r (split_newline (trim m)) s
    \<and> m \<notin> set (split_newline (trim m))
    \<and> (respondToMessage re r m s = Inl (e, s1) \<longrightarrow>
         (\<exists>n < length (split_newline (trim m)).
            pushes s1 = pushes s @ take n (split_newline (trim m))))
    \<and> (respondToMessage re r m s = Inr s' \<longrightarrow>
         pushes s' = pushes s @ split_newline (trim m)
         \<and> invocations s' = invocations s @ expected_calls re r (split_newline (trim m))
         \<and> (list_all (\<lambda>l. matching_prompts re l (prompts_of r) = []) (split_newline (trim m))
              \<and> ''_default'' \<in> set (prompts_of r) \<longrightarrow>
            invocations s' = invocations s
              @ map (\<lambda>l. (''_default'', l))
                  (filter (\<lambda>l. trim l \<noteq> EXITING_MESSAGE) (split_newline (trim m))))
         \<and> (callbacks_keep_history r \<longrightarrow>
              logicMessages s' = logicMessages s @ split_newline (trim m)))"
proof -
  let ?ls = "split_newline (trim m)"
  have multi: "respondToMessage re r m s = forEach_respond re r ?ls s"
    using assms by (rule respondToMessage_multi)
  have "newline \<in> set m"
    using assms set_trim_subset by (auto simp: includes_newline_def)
  then have notin: "m \<notin> set ?ls"
    using split_newline_no_newline by blast
  have scenario: "expected_calls re r ls
      = map (\<lambda>l. (''_default'', l)) (filter (\<lambda>l. trim l \<noteq> EXITING_MESSAGE) ls)"
    if "list_all (\<lambda>l. matching_prompts re l (prompts_of r) = []) ls"
      and "''_default'' \<in> set (prompts_of r)" for ls
    using that by (induction ls) (simp_all add: expected_calls_def expected_keys_def)
  have stopped: "\<exists>n < length ?ls. pushes s1 = pushes s @ take n ?ls"
    if "respondToMessage re r m s = Inl (e, s1)"
    using forEach_thrown [OF split_lines_single, of re r "trim m" s e s1] that multi by simp
  have finished: "pushes s' = pushes s @ ?ls
      \<and> invocations s' = invocations s @ expected_calls re r ?ls
      \<and> (callbacks_keep_history r \<longrightarrow> logicMessages s' = logicMessages s @ ?ls)"
    if "respondToMessage re r m s = Inr s'"
    using forEach_returns [OF split_lines_single, of re r "trim m" s s'] that multi by simp
  show ?thesis
    using multi notin stopped finished scenario by auto
qed

theorem multiline_message_is_dispatched_line_by_line_witness:
  "includes_newline (trim two_lines)
   \<and> list_all (\<lambda>l. matching_prompts plain_engine l (prompts_of default_responder) = [])
        (split_newline (trim two_lines))
   \<and> ''_default'' \<in> set (prompts_of default_responder)
   \<and> callbacks_keep_history default_responder
   \<and> (\<exists>s'. respondToMessage plain_engine default_responder two_lines example_state = Inr s'
      \<and> pushes s' = [''foo'', ''bar'']
      \<and> logicMessages s' = [''foo'', ''bar'']
      \<and> invocations s' = [(''_default'', ''foo''), (''_default'', ''bar'')])"
proof -
  have h1: "includes_newline (trim two_lines)"
    by (simp add: two_lines_trim two_lines_multi)
  have h3: "list_all (\<lambda>l. matching_prompts plain_engine l (prompts_of default_responder) = [])
        (split_newline (trim two_lines))"
    by (simp add: two_lines_trim two_lines_split matching_prompts_def prompts_of_def
        default_responder_def)
  have h4: "''_default'' \<in> set (prompts_of default_responder)"
    by (simp add: prompts_of_def default_responder_def)
  obtain s' where fin:
      "respondToMessage plain_engine default_responder two_lines example_state = Inr s'"
    using respondToMessage_completes [OF default_valid default_returns] by blast
  have init: "pushes example_state = []" "logicMessages example_state = []"
      "invocations example_state = []"
    by (simp_all add: pushes_def invocations_def example_state_def)
  have "pushes s' = pushes example_state @ split_newline (trim two_lines)
      \<and> invocations s' = invocations example_state
          @ map (\<lambda>l. (''_default'', l))
              (filter (\<lambda>l. trim l \<noteq> EXITING_MESSAGE) (split_newline (trim two_lines)))
      \<and> logicMessages s' = logicMessages example_state @ split_newline (trim two_lines)"
    using h3 h4 default_keeps fin
      multiline_message_is_dispatched_line_by_line [OF h1, of plain_engine
        default_responder example_state "Failure ''none''" example_state s']
    by blast
  then have "pushes s' = [''foo'', ''bar''] \<and> logicMessages s' = [''foo'', ''bar'']
      \<and> invocations s' = [(''_default'', ''foo''), (''_default'', ''bar'')]"
    by (simp add: two_lines_trim two_lines_split EXITING_MESSAGE_def init)
  then show ?thesis
    using h1 h3 h4 default_keeps fin by blast
qed

text \<open>C7 as stated fails in three ways, each with no rule but \<open>_default\<close> in the table.
  The callback throws on the first line: the second line is never dispatched and nothing
  is pushed. One of the two lines is the sentinel: \<open>_default\<close> is invoked once, not twice.
  The callback empties the array it is handed: both lines are dispatched and the history
  holds the second one alone.\<close>

theorem multiline_dispatch_cut_short_or_rewritten:
  "includes_newline (trim two_lines) \<and> split_newline (trim two_lines) = [''foo'', ''bar'']
   \<and> (\<exists>s1. respondToMessage plain_engine throwing_default_responder two_lines example_state
          = Inl (Failure ''boom'', s1)
        \<and> invocations s1 = [(''_default'', ''foo'')] \<and> pushes s1 = []
        \<and> logicMessages s1 = [])
   \<and> includes_newline (trim line_and_sentinel)
   \<and> split_newline (trim line_and_sentinel) = [''foo'', ''Exiting...'']
   \<and> (\<exists>s2. respondToMessage plain_engine default_responder line_and_sentinel example_state
          = Inr s2
        \<and> invocations s2 = [(''_default'', ''foo'')]
        \<and> logicMessages s2 = [''foo'', ''Exiting...''])
   \<and> (\<exists>s3. respondToMessage plain_engine erasing_responder two_lines example_state = Inr s3
        \<and> invocations s3 = [(''_default'', ''foo''), (''_default'', ''bar'')]
        \<and> logicMessages s3 = [''bar''])"
proof -
  have a: "\<exists>s1. respondToMessage plain_engine throwing_default_responder two_lines example_state
          = Inl (Failure ''boom'', s1)
        \<and> invocations s1 = [(''_default'', ''foo'')] \<and> pushes s1 = []
        \<and> logicMessages s1 = []"
    by (simp add: respondToMessage_multi two_lines_trim two_lines_multi two_lines_split
        eval_line_defs respondToLine_def handleExitingMessage_def EXITING_MESSAGE_def
        handleResponse_def throwing_default_responder_def invoke_def thrower_def
        log_effect_def invocations_def pushes_def example_state_def)
  have b: "\<exists>s2. respondToMessage plain_engine default_responder line_and_sentinel example_state
          = Inr s2
        \<and> invocations s2 = [(''_default'', ''foo'')]
        \<and> logicMessages s2 = [''foo'', ''Exiting...'']"
    by (simp add: respondToMessage_multi line_and_sentinel_trim line_and_sentinel_multi
        line_and_sentinel_split eval_line_defs respondToLine_def handleExitingMessage_def
        EXITING_MESSAGE_def handleResponse_def default_responder_def invoke_def reply_def
        log_effect_def push_message_def resolve_hook_def invocations_def example_state_def)
  have c: "\<exists>s3. respondToMessage plain_engine erasing_responder two_lines example_state = Inr s3
        \<and> invocations s3 = [(''_default'', ''foo''), (''_default'', ''bar'')]
        \<and> logicMessages s3 = [''bar'']"
    by (simp add: respondToMessage_multi two_lines_trim two_lines_multi two_lines_split
        eval_line_defs respondToLine_def handleExitingMessage_def EXITING_MESSAGE_def
        handleResponse_def erasing_responder_def invoke_def eraser_def
        log_effect_def push_message_def invocations_def example_state_def)
  show ?thesis
    using a b c
    by (simp add: two_lines_trim two_lines_multi two_lines_split line_and_sentinel_trim
        line_and_sentinel_multi line_and_sentinel_split)
qed

text \<open>
  C8 on the code. The key \<open>C++\<close> is meant as an exact string and is no regular
  expression. The trimmed message \<open>C++\<close> equals the key, so that the key matches in the
  words of the claim and of the comments in \<open>handleResponse\<close>; but \<open>new RegExp\<close> is
  called before the comparison and throws, and the callback of the key is not invoked.
\<close>

theorem literal_key_that_is_no_regex_throws:
  "''C++'' \<in> set (prompts_of literal_responder)
   \<and> ''C++'' \<noteq> ''_default''
   \<and> trim ''C++'' = ''C++''
   \<and> handleResponse plain_engine literal_responder ''C++'' example_state
       = Inl (SyntaxError ''C++'', example_state)
   \<and> invocations example_state = []"
  by (simp add: handleResponse_def literal_responder_def prompts_of_def
      invocations_def example_state_def)

text \<open>
  C10. When the keys of the table reach a key other than \<open>_default\<close> that is not a
  well-formed regular expression, after keys that are, a single-line message that is not
  the sentinel makes \<open>respondToMessage\<close> throw: only callbacks of matching keys before
  that key have been invoked, the message is not pushed onto the history, and the
  \<open>message\<close> handler lets the exception escape. If no callback throws, the exception is
  the \<open>SyntaxError\<close> of that key and the callbacks of all matching keys before it have
  been invoked; if no callback writes into the array, the history is unchanged.
\<close>

theorem invalid_key_aborts_dispatch:
  assumes "prompts_of r = pre @ k # post"
    and "valid_prompts re pre"
    and "k \<noteq> ''_default''"
    and "re k = None"
    and "\<not> includes_newline (trim m)"
    and "trim m \<noteq> EXITING_MESSAGE"
    and "listening st"
  shows "\<exists>e s' n. respondToMessage re r m (shared st) = Inl (e, s')
      \<and> invocations s'
          = invocations (shared st) @ map (\<lambda>p. (p, m)) (take n (matching_prompts re m pre))
      \<and> pushes s' = pushes (shared st)
      \<and> handle_event re r (MessageEvent m) st
          = st\<lparr>shared := s', uncaught := uncaught st @ [e]\<rparr>
      \<and> (callbacks_return r \<longrightarrow>
            e = SyntaxError k
            \<and> invocations s'
                = invocations (shared st) @ map (\<lambda>p. (p, m)) (matching_prompts re m pre))
      \<and> (callbacks_keep_history r \<longrightarrow> logicMessages s' = logicMessages (shared st))"
proof -
  let ?s = "shared st"
  let ?pre = "handleResponse_loop re r m pre False ?s"
  have sub: "set pre \<subseteq> fst ` set (messageResponses r)"
    using assms(1) by (auto simp: prompts_of_def dest: arg_cong [where f = set])
  have whole: "handleResponse re r m ?s
      = (case ?pre of Inl escaped \<Rightarrow> Inl escaped
         | Inr (h', s1) \<Rightarrow> Inl (SyntaxError k, s1))"
    using assms(1,3,4)
    by (simp add: handleResponse_def prompts_of_def [symmetric] loop_append
        split: sum.splits)
  obtain n where fired: "invocations (loop_state ?pre)
      = invocations ?s @ map (\<lambda>p. (p, m)) (take n (matching_prompts re m pre))"
    using loop_fired [of re r m pre False ?s] by blast
  have unpushed: "pushes (loop_state ?pre) = pushes ?s"
    by (rule loop_frame(1))
  have kept: "callbacks_keep_history r \<Longrightarrow> logicMessages (loop_state ?pre) = logicMessages ?s"
    by (rule loop_keeps)
  have line: "respondToMessage re r m ?s = respondToLine re r m ?s"
    using assms(5) by (rule respondToMessage_single)
  show ?thesis
  proof (cases ?pre)
    case (Inl x)
    obtain e s1 where x: "x = (e, s1)" by (cases x)
    have thrown: "respondToMessage re r m ?s = Inl (e, s1)"
      using whole Inl x assms(6)
      by (simp add: line respondToLine_def handleExitingMessage_def)
    have "\<not> callbacks_return r"
      using loop_completes [OF assms(2) sub, of m False ?s] Inl by auto
    then show ?thesis
      using thrown fired unpushed kept Inl x assms(7) by auto
  next
    case (Inr y)
    obtain h1 s1 where y: "y = (h1, s1)" by (cases y)
    have thrown: "respondToMessage re r m ?s = Inl (SyntaxError k, s1)"
      using whole Inr y assms(6)
      by (simp add: line respondToLine_def handleExitingMessage_def)
    have full: "invocations s1
        = invocations ?s @ map (\<lambda>p. (p, m)) (matching_prompts re m pre)"
      using loop_returns [of re r m pre False ?s h1 s1] Inr y by simp
    show ?thesis
      using thrown fired unpushed kept full Inr y assms(7) by auto
  qed
qed

theorem invalid_key_aborts_dispatch_witness:
  "prompts_of broken_responder = [''READY''] @ ''('' # [''foo'', ''_default'']
   \<and> valid_prompts plain_engine [''READY'']
   \<and> ''('' \<noteq> ''_default''
   \<and> plain_engine ''('' = None
   \<and> \<not> includes_newline (trim ''READY'')
   \<and> trim ''READY'' \<noteq> EXITING_MESSAGE
   \<and> listening listening_state
   \<and> callbacks_return broken_responder
   \<and> callbacks_keep_history broken_responder
   \<and> (\<exists>s'. respondToMessage plain_engine broken_responder ''READY'' (shared listening_state)
          = Inl (SyntaxError ''('', s')
      \<and> invocations s' = [(''READY'', ''READY'')]
      \<and> pushes s' = []
      \<and> logicMessages s' = []
      \<and> handle_event plain_engine broken_responder (MessageEvent ''READY'') listening_state
          = listening_state\<lparr>shared := s', uncaught := [SyntaxError ''('']\<rparr>)"
proof -
  have h1: "prompts_of broken_responder = [''READY''] @ ''('' # [''foo'', ''_default'']"
    by (simp add: prompts_of_def broken_responder_def)
  have h2: "valid_prompts plain_engine [''READY'']" by (simp add: valid_prompts_def)
  have h3: "''('' \<noteq> ''_default''" by simp
  have h4: "plain_engine ''('' = None" by simp
  have h5: "\<not> includes_newline (trim ''READY'')" by simp
  have h6: "trim ''READY'' \<noteq> EXITING_MESSAGE" by (simp add: EXITING_MESSAGE_def)
  have h7: "listening listening_state" by (simp add: listening_state_def)
  have h8: "callbacks_return broken_responder"
    by (simp add: callbacks_return_def broken_responder_def)
  have h9: "callbacks_keep_history broken_responder"
    by (simp add: callbacks_keep_history_def broken_responder_def)
  have init: "invocations (shared listening_state) = []"
      "pushes (shared listening_state) = []"
      "logicMessages (shared listening_state) = []" "uncaught listening_state = []"
    by (simp_all add: listening_state_def initial_state_def invocations_def pushes_def)
  have m: "matching_prompts plain_engine ''READY'' [''READY''] = [''READY'']"
    by (simp add: matching_prompts_def spec_matches_def)
  show ?thesis
    using h1 h2 h3 h4 h5 h6 h7 h8 h9
      invalid_key_aborts_dispatch [OF h1 h2 h3 h4 h5 h6 h7]
    by (auto simp: init m)
qed

section \<open>Claims about the communicator and the history\<close>

text \<open>
  C4, amended. With a table whose callbacks leave the array \<open>logicMessages\<close> as they find
  it, the message history only grows during a run; when moreover no exception escapes the
  \<open>message\<close> handler during the run, the history at its end is exactly the sequence of
  the delivered lines, in order; and every single-line message whose dispatch runs to its
  end is pushed onto the history once, as the last step of its dispatch.
\<close>

theorem history_is_the_delivered_lines:
  assumes "callbacks_keep_history r"
  shows "prefix (logicMessages (shared (run re r args b turns)))
      (logicMessages (shared (run re r args b (turns @ turns'))))
   \<and> (uncaught (run re r args Spawns turns) = [] \<longrightarrow>
        logicMessages (shared (run re r args Spawns turns))
          = concat (map delivered_lines (messages_of (concat turns))))
   \<and> (respondToMessage re r m s = Inr s' \<longrightarrow>
        logicMessages s' = logicMessages s @ delivered_lines m
        \<and> (includes_newline (trim m) \<or> last (effects s') = Pushed m))"
proof -
  have grow: "prefix (logicMessages (shared (run re r args b turns)))
      (logicMessages (shared (run re r args b (turns @ turns'))))"
    by (simp only: run_append turns_history [OF assms])
  have whole: "logicMessages (shared (run re r args Spawns turns))
      = concat (map delivered_lines (messages_of (concat turns)))"
    if clean: "uncaught (run re r args Spawns turns) = []"
  proof -
    have "listening (react (executor Spawns (initial_state args)))" by simp
    from turns_deliver [OF assms this, of re turns] clean show ?thesis
      by (simp add: run_def initial_state_def)
  qed
  have one: "logicMessages s' = logicMessages s @ delivered_lines m
      \<and> (includes_newline (trim m) \<or> last (effects s') = Pushed m)"
    if ret: "respondToMessage re r m s = Inr s'"
  proof (cases "includes_newline (trim m)")
    case True
    then show ?thesis
      using respondToMessage_returns(3) [OF ret assms] by simp
  next
    case False
    then have "respondToLine re r m s = Inr s'"
      using ret by (simp add: respondToMessage_single)
    from respondToLine_returns(3) [OF this] show ?thesis
      using respondToMessage_returns(3) [OF ret assms] by simp
  qed
  show ?thesis
    using grow whole one by blast
qed

theorem history_is_the_delivered_lines_witness:
  "callbacks_keep_history example_responder
   \<and> uncaught (run plain_engine example_responder [] Spawns
        [[MessageEvent two_lines, ExitEvent], [MessageEvent ''READY'']]) = []
   \<and> prefix (logicMessages (shared (run plain_engine example_responder [] Spawns
         [[MessageEvent two_lines, ExitEvent]])))
       (logicMessages (shared (run plain_engine example_responder [] Spawns
         ([[MessageEvent two_lines, ExitEvent]] @ [[MessageEvent ''READY'']]))))
   \<and> logicMessages (shared (run plain_engine example_responder [] Spawns
         [[MessageEvent two_lines, ExitEvent], [MessageEvent ''READY'']]))
       = [''foo'', ''bar'', ''READY'']
   \<and> (\<exists>s'. respondToMessage plain_engine example_responder ''READY'' example_state = Inr s'
        \<and> logicMessages s' = [''READY'']
        \<and> last (effects s') = Pushed ''READY'')"
proof -
  have d: "delivered_lines two_lines = [''foo'', ''bar'']"
      "delivered_lines ''READY'' = [''READY'']"
    by (simp_all add: delivered_lines_def two_lines_trim two_lines_split two_lines_multi)
  have clean: "uncaught (run plain_engine example_responder [] Spawns
        [[MessageEvent two_lines, ExitEvent], [MessageEvent ''READY'']]) = []"
    by (rule run_raises_nothing [OF example_valid example_returns])
  obtain s' where ret:
      "respondToMessage plain_engine example_responder ''READY'' example_state = Inr s'"
    using respondToMessage_completes [OF example_valid example_returns] by blast
  have one: "logicMessages s' = [''READY''] \<and> last (effects s') = Pushed ''READY''"
    using ret history_is_the_delivered_lines [OF example_keeps, of plain_engine "[]" Spawns
        "[]" "[]" "''READY''" example_state s']
    by (simp add: d example_state_def)
  have whole: "logicMessages (shared (run plain_engine example_responder [] Spawns
         [[MessageEvent two_lines, ExitEvent], [MessageEvent ''READY'']]))
       = [''foo'', ''bar'', ''READY'']"
    using clean history_is_the_delivered_lines [OF example_keeps, of plain_engine "[]" Spawns
        "[[MessageEvent two_lines, ExitEvent], [MessageEvent ''READY'']]" "[]" "''READY''"
        example_state s']
    by (simp add: d)
  have grow: "prefix (logicMessages (shared (run plain_engine example_responder [] Spawns
         [[MessageEvent two_lines, ExitEvent]])))
       (logicMessages (shared (run plain_engine example_responder [] Spawns
         ([[MessageEvent two_lines, ExitEvent]] @ [[MessageEvent ''READY'']]))))"
    using history_is_the_delivered_lines [OF example_keeps, of plain_engine "[]" Spawns
        "[[MessageEvent two_lines, ExitEvent]]" "[[MessageEvent ''READY'']]" "''READY''"
        example_state s']
    by blast
  show ?thesis
    using example_keeps clean grow whole ret one by blast
qed

text \<open>C4 as stated fails for a table whose callback throws, which the core does not
  catch: the delivered message \<open>foo\<close> never reaches the history. It fails as well for a
  table whose callback empties the array it is handed: after \<open>foo\<close> and \<open>bar\<close> the
  history is \<open>bar\<close> alone, and \<open>foo\<close>, which was in it, is gone.\<close>

theorem message_lost_or_history_rewritten_by_callback:
  "messages_of (concat [[MessageEvent ''foo'']]) = [''foo'']
   \<and> delivered_lines ''foo'' = [''foo'']
   \<and> logicMessages (shared (run plain_engine throwing_default_responder [] Spawns
         [[MessageEvent ''foo'']])) = []
   \<and> logicMessages (shared (run plain_engine erasing_responder [] Spawns
         [[MessageEvent ''foo'']])) = [''foo'']
   \<and> logicMessages (shared (run plain_engine erasing_responder [] Spawns
         [[MessageEvent ''foo''], [MessageEvent ''bar'']])) = [''bar'']"
  by (simp add: delivered_lines_def run_def turn_def react_def initial_state_def
      eval_line_defs respondToLine_def handleExitingMessage_def EXITING_MESSAGE_def
      handleResponse_def throwing_default_responder_def erasing_responder_def invoke_def
      thrower_def eraser_def log_effect_def push_message_def)

text \<open>
  C5. When the fulfilment of the promise is recorded and the handle is not terminated when
  the reaction runs, the communicator calls \<open>end\<close> once and waits; if the callback of
  \<open>end\<close> is then called with an error, \<open>reject\<close> is called with that error and
  \<open>resolve\<close> with the recorded value after it, so that the promise of \<open>runScript\<close> is
  rejected with the error of the shutdown. Without an error it is fulfilled with the
  recorded value.
\<close>

theorem graceful_shutdown_error_overrides_success:
  assumes "promise (shared (run re r args b turns)) = Pending"
    and "promise (shared (run re r args b (turns @ [evs]))) = Fulfilled result"
    and "\<not> terminated (run re r args b (turns @ [evs]))"
    and "list_all (list_all (\<lambda>e. \<not> is_end_return e)) later"
  shows "signals (run re r args b (turns @ [evs])) = [EndSignal]
    \<and> endCallback (run re r args b (turns @ [evs])) = Some result
    \<and> outerCalls (run re r args b (turns @ [evs] @ later)) = []
    \<and> outerCalls (run re r args b (turns @ [evs] @ later @ [[EndReturned (Some err)]]))
        = [Refuse err, Fulfil result]
    \<and> runScript re r args b (turns @ [evs] @ later @ [[EndReturned (Some err)]])
        = Rejected (Some err)
    \<and> runScript re r args b (turns @ [evs] @ later @ [[EndReturned None]]) = Fulfilled result"
proof -
  let ?s0 = "run re r args b turns"
  let ?h = "fold (handle_event re r) evs ?s0"
  let ?s1 = "run re r args b (turns @ [evs])"
  let ?s2 = "fold (turn re r) later ?s1"
  have inv: "settled_inv ?s0" by (rule inv_run)
  have s0: "\<not> reacted ?s0" "signals ?s0 = []" "outerCalls ?s0 = []" "endCallback ?s0 = None"
      "interpreter ?s0"
    using inv assms(1) by (simp_all add: settled_inv_def)
  have s1: "?s1 = react ?h"
    by (simp add: run_snoc turn_def)
  then have ph: "promise (shared ?h) = Fulfilled result"
    using assms(2) by simp
  have flag: "\<not> terminated ?h"
    using assms(3) s1 by simp
  have h: "\<not> reacted ?h" "signals ?h = []" "outerCalls ?h = []" "interpreter ?h"
    using s0 events_quiet [OF s0(4), of re r evs] by (simp_all add: events_frame)
  have r1: "?s1 = ?h\<lparr>reacted := True, signals := signals ?h @ [EndSignal],
      endCallback := Some result\<rparr>"
    using s1 react_fulfilled [OF h(1) ph h(4)] flag by simp
  have a: "signals ?s1 = [EndSignal]" "endCallback ?s1 = Some result" "reacted ?s1"
      "outerCalls ?s1 = []"
    using h by (simp_all add: r1)
  from fold_waiting [OF a(3) assms(4), of re r]
  have s2: "reacted ?s2" "endCallback ?s2 = Some result" "outerCalls ?s2 = []"
    using a by simp_all
  have unfold: "run re r args b (turns @ [evs] @ later @ [es]) = turn re r es ?s2"
      "run re r args b (turns @ [evs] @ later) = ?s2" for es
    by (simp_all add: run_def)
  show ?thesis
    unfolding runScript_def unfold
    using a s2 turn_end_returned(1) [OF s2, of re r err] turn_end_returned(2) [OF s2, of re r]
    by (simp add: outer_outcome_def)
qed

theorem graceful_shutdown_error_overrides_success_witness:
  "promise (shared (run plain_engine example_responder [] Spawns [])) = Pending
   \<and> promise (shared (run plain_engine example_responder [] Spawns
        ([] @ [[MessageEvent '' Exiting... '']]))) = Fulfilled None
   \<and> \<not> terminated (run plain_engine example_responder [] Spawns
        ([] @ [[MessageEvent '' Exiting... '']]))
   \<and> list_all (list_all (\<lambda>e. \<not> is_end_return e)) [[ErrorEvent (Failure ''late''), ExitEvent]]
   \<and> signals (run plain_engine example_responder [] Spawns
        ([] @ [[MessageEvent '' Exiting... '']])) = [EndSignal]
   \<and> outerCalls (run plain_engine example_responder [] Spawns
        ([] @ [[MessageEvent '' Exiting... '']] @ [[ErrorEvent (Failure ''late''), ExitEvent]]
          @ [[EndReturned (Some (Failure ''shutdown''))]]))
       = [Refuse (Failure ''shutdown''), Fulfil None]
   \<and> runScript plain_engine example_responder [] Spawns
        ([] @ [[MessageEvent '' Exiting... '']] @ [[ErrorEvent (Failure ''late''), ExitEvent]]
          @ [[EndReturned (Some (Failure ''shutdown''))]])
       = Rejected (Some (Failure ''shutdown''))"
proof -
  have h1: "promise (shared (run plain_engine example_responder [] Spawns [])) = Pending"
    by (simp add: run_nil_spawns initial_state_def)
  have h2: "promise (shared (run plain_engine example_responder [] Spawns
        ([] @ [[MessageEvent '' Exiting... '']]))) = Fulfilled None"
    by (simp add: run_single run_nil_spawns turn_def initial_state_def
        respond_sentinel push_message_def resolve_hook_def log_effect_def)
  have h3: "\<not> terminated (run plain_engine example_responder [] Spawns
        ([] @ [[MessageEvent '' Exiting... '']]))"
    by (simp add: run_single run_nil_spawns turn_def initial_state_def
        respond_sentinel push_message_def resolve_hook_def log_effect_def)
  have h4: "list_all (list_all (\<lambda>e. \<not> is_end_return e))
      [[ErrorEvent (Failure ''late''), ExitEvent]]"
    by simp
  show ?thesis
    using h1 h2 h3 h4
      graceful_shutdown_error_overrides_success [OF h1 h2 h3 h4, of "Failure ''shutdown''"]
    by blast
qed

text \<open>
  C6, amended. The communicator signals the subprocess at most once in a run, and not
  before an outcome is recorded: the signal is sent by the reaction that follows the turn
  in which the outcome is recorded, \<open>end\<close> after a success and \<open>kill\<close> after a failure
  that has a reason, if the flag \<open>terminated\<close> is false when the reaction runs; nothing
  is sent if the flag is true by then. Once an outcome is recorded, a later event neither
  changes it nor sends another signal.
\<close>

theorem at_most_one_termination_signal:
  assumes "s = run re r args b turns" and "s' = turn re r evs s"
  shows "length (signals s) \<le> 1 \<and> length (signals s') \<le> 1
    \<and> (if promise (shared s) = Pending
       then signals s = []
          \<and> (case promise (shared s') of
                Pending \<Rightarrow> signals s' = []
              | Fulfilled result \<Rightarrow> signals s' = (if terminated s' then [] else [EndSignal])
              | Rejected reason \<Rightarrow>
                  (case reason of
                     None \<Rightarrow> True
                   | Some err \<Rightarrow> signals s' = (if terminated s' then [] else [KillSignal])))
       else promise (shared s') = promise (shared s) \<and> signals s' = signals s)"
proof -
  have inv: "settled_inv s"
    using assms(1) by (simp add: inv_run)
  then have inv': "settled_inv s'"
    using assms(2) by (simp add: inv_turn)
  show ?thesis
  proof (cases "promise (shared s) = Pending")
    case True
    then show ?thesis
      using inv inv' turn_pending(1) [OF inv True, of re r evs] assms(2)
      by (auto simp: settled_inv_def split: settle.splits option.splits)
  next
    case False
    then show ?thesis
      using inv inv' turn_settled(1,2) [OF inv False, of re r evs] assms(2)
      by (simp add: settled_inv_def)
  qed
qed

theorem at_most_one_termination_signal_witness:
  "signals (run plain_engine example_responder [] Spawns []) = []
   \<and> signals (turn plain_engine example_responder [MessageEvent '' Exiting... '']
        (run plain_engine example_responder [] Spawns [])) = [EndSignal]
   \<and> signals (turn plain_engine example_responder [ErrorEvent (Failure ''crash'')]
        (run plain_engine example_responder [] Spawns [])) = [KillSignal]"
proof -
  let ?s = "run plain_engine example_responder [] Spawns []"
  let ?a = "turn plain_engine example_responder [MessageEvent '' Exiting... ''] ?s"
  let ?b = "turn plain_engine example_responder [ErrorEvent (Failure ''crash'')] ?s"
  have p: "promise (shared ?s) = Pending"
    by (simp add: run_nil_spawns initial_state_def)
  have a: "promise (shared ?a) = Fulfilled None" "\<not> terminated ?a"
    by (simp_all add: run_nil_spawns turn_def initial_state_def respond_sentinel
        push_message_def resolve_hook_def log_effect_def)
  have b: "promise (shared ?b) = Rejected (Some (Failure ''crash''))" "\<not> terminated ?b"
    by (simp_all add: run_nil_spawns turn_def initial_state_def reject_hook_def
        log_effect_def)
  show ?thesis
    using at_most_one_termination_signal [OF refl refl, where re = plain_engine
        and r = example_responder and evs = "[MessageEvent '' Exiting... '']" and b = Spawns
        and args = "[]" and turns = "[]"]
      at_most_one_termination_signal [OF refl refl, where re = plain_engine
        and r = example_responder and evs = "[ErrorEvent (Failure ''crash'')]" and b = Spawns
        and args = "[]" and turns = "[]"] p a b
    by simp
qed

text \<open>C6 as stated fails when the flag \<open>terminated\<close> is set by the time the reaction runs:
  an error event and the exit in one turn, or the sentinel after the exit, record an
  outcome and no signal at all is sent.\<close>

theorem outcome_after_exit_sends_no_signal:
  "promise (shared (run plain_engine example_responder [] Spawns
       [[ErrorEvent (Failure ''crash''), ExitEvent]])) = Rejected (Some (Failure ''crash''))
   \<and> signals (run plain_engine example_responder [] Spawns
       [[ErrorEvent (Failure ''crash''), ExitEvent]]) = []
   \<and> promise (shared (run plain_engine example_responder [] Spawns
       [[ExitEvent], [MessageEvent ''Exiting...'']])) = Fulfilled None
   \<and> signals (run plain_engine example_responder [] Spawns
       [[ExitEvent], [MessageEvent ''Exiting...'']]) = []"
  by (simp add: run_def turn_def react_def run_catch_def onRejected_def onFulfilled_def
      outer_reject_def initial_state_def reject_hook_def log_effect_def respond_sentinel
      push_message_def resolve_hook_def)

text \<open>
  C1 on the code. The subprocess has exited, so that \<open>terminated\<close> is set, when the
  reaction to the sentinel runs: the success is recorded, the \<open>.then\<close> handler skips
  \<open>end\<close> and with it the only calls of the outer \<open>resolve\<close> and \<open>reject\<close>, and whatever
  turns follow, the promise of \<open>runScript\<close> stays pending.
\<close>

theorem success_after_exit_is_never_delivered:
  "promise (shared (run re r args Spawns
       ([[ExitEvent], [MessageEvent ''Exiting...'']] @ turns))) = Fulfilled None
   \<and> outerCalls (run re r args Spawns
       ([[ExitEvent], [MessageEvent ''Exiting...'']] @ turns)) = []
   \<and> runScript re r args Spawns ([[ExitEvent], [MessageEvent ''Exiting...'']] @ turns)
       = Pending
   \<and> runScript re r args Spawns ([[MessageEvent ''Exiting...'', ExitEvent]] @ turns)
       = Pending"
proof -
  let ?s = "run re r args Spawns [[ExitEvent], [MessageEvent ''Exiting...'']]"
  let ?t = "run re r args Spawns [[MessageEvent ''Exiting...'', ExitEvent]]"
  have s: "promise (shared ?s) = Fulfilled None" "reacted ?s" "endCallback ?s = None"
      "outerCalls ?s = []"
    by (simp_all add: run_def turn_def initial_state_def react_def respond_sentinel
        push_message_def resolve_hook_def log_effect_def onFulfilled_def)
  have t: "reacted ?t" "endCallback ?t = None" "outerCalls ?t = []"
    by (simp_all add: run_def turn_def initial_state_def react_def respond_sentinel
        push_message_def resolve_hook_def log_effect_def onFulfilled_def)
  have u: "run re r args Spawns ([[ExitEvent], [MessageEvent ''Exiting...'']] @ turns)
      = fold (turn re r) turns ?s"
      "run re r args Spawns ([[MessageEvent ''Exiting...'', ExitEvent]] @ turns)
      = fold (turn re r) turns ?t"
    by (rule run_append)+
  have "settled_inv ?s" by (rule inv_run)
  from fold_settled [OF this, of re r turns] fold_stuck [OF s(2,3), of re r turns]
    fold_stuck [OF t(1,2), of re r turns] s t
  have "promise (shared (fold (turn re r) turns ?s)) = Fulfilled None"
    and "outerCalls (fold (turn re r) turns ?s) = []"
    and "outerCalls (fold (turn re r) turns ?t) = []"
    by simp_all
  then show ?thesis
    unfolding runScript_def u by (simp add: outer_outcome_def)
qed

text \<open>The sibling path: a failure recorded when the subprocess has exited is delivered,
  because the \<open>.catch\<close> handler calls \<open>reject\<close> outside its test of \<open>terminated\<close>.\<close>

lemma failure_after_exit_is_delivered:
  "runScript re r args Spawns [[ExitEvent], [ErrorEvent err]] = Rejected (Some err)
   \<and> runScript re r args Spawns [[ErrorEvent err, ExitEvent]] = Rejected (Some err)"
  by (simp add: runScript_def outer_outcome_def run_def turn_def react_def run_catch_def
      onRejected_def outer_reject_def initial_state_def reject_hook_def log_effect_def)

text \<open>
  C9 on the code. The executor throws before \<open>interpreter\<close> is assigned: no message is
  dispatched and no subprocess is signalled, but the \<open>.catch\<close> handler throws a
  \<open>TypeError\<close> when it reads \<open>interpreter.terminated\<close>, before its call of \<open>reject\<close>:
  the spawn error is never delivered and the promise of \<open>runScript\<close> stays pending.
\<close>

theorem spawn_error_before_handle_is_never_delivered:
  "run re r args (ThrowsBeforeHandle err) turns
     = (initial_state args)
        \<lparr>shared := reject_hook (Some err) (shared (initial_state args)), reacted := True,
         unhandled := [TypeError ''Cannot read properties of undefined (reading terminated)'']\<rparr>
   \<and> outerCalls (run re r args (ThrowsBeforeHandle err) turns) = []
   \<and> signals (run re r args (ThrowsBeforeHandle err) turns) = []
   \<and> runScript re r args (ThrowsBeforeHandle err) turns = Pending"
proof -
  let ?s = "(initial_state args)
        \<lparr>shared := reject_hook (Some err) (shared (initial_state args)), reacted := True,
         unhandled := [TypeError ''Cannot read properties of undefined (reading terminated)'']\<rparr>"
  have start: "react (executor (ThrowsBeforeHandle err) (initial_state args)) = ?s"
    by (simp add: react_def run_catch_def onRejected_def initial_state_def reject_hook_def
        log_effect_def)
  have same: "handle_event re r ev ?s = ?s" for ev
    by (cases ev) (simp_all add: initial_state_def end_callback_def)
  have "fold (handle_event re r) evs ?s = ?s" for evs
    by (induction evs) (simp_all add: same)
  then have "turn re r evs ?s = ?s" for evs
    by (simp add: turn_def react_def initial_state_def)
  then have "fold (turn re r) turns ?s = ?s"
    by (induction turns) simp_all
  then have "run re r args (ThrowsBeforeHandle err) turns = ?s"
    by (simp only: run_def start)
  then show ?thesis
    by (simp add: runScript_def outer_outcome_def initial_state_def)
qed

text \<open>The sibling path: a throw after \<open>interpreter\<close> is assigned kills the subprocess
  and delivers the error.\<close>

lemma spawn_error_after_handle_is_delivered:
  "runScript re r args (ThrowsAfterHandle err) [] = Rejected (Some err)
   \<and> signals (run re r args (ThrowsAfterHandle err) []) = [KillSignal]"
  by (simp add: runScript_def outer_outcome_def run_def react_def run_catch_def
      onRejected_def outer_reject_def initial_state_def reject_hook_def log_effect_def)

end
